theory Spec2Isabelle
  imports Main "HOL-Library.Word" "HOL-Library.Multiset"
begin

section \<open>The validation layer (errors/ValidateParameters.cpp)\<close>

subsection \<open>Error values, exceptions and machine integers\<close>

text \<open>
  The error codes that the functions of ValidateParameters.cpp return. An \<open>Error\<close> carries a
  code and an optional custom message; \<open>of_code\<close> is the implicit conversion from a bare
  code that \<open>return SUCCESS;\<close> performs, and the source's \<open>error != SUCCESS\<close> compares
  the code only.
\<close>

datatype ErrorCode =
    SUCCESS
  | NO_DESTINATIONS_GIVEN
  | AMOUNT_IS_ZERO
  | ADDRESS_WRONG_LENGTH
  | ADDRESS_WRONG_PREFIX
  | ADDRESS_IS_INTEGRATED
  | ADDRESS_NOT_BASE58
  | INTEGRATED_ADDRESS_PAYMENT_ID_INVALID
  | ADDRESS_NOT_VALID
  | ADDRESS_NOT_IN_WALLET
  | CONFLICTING_PAYMENT_IDS
  | HASH_WRONG_LENGTH
  | HASH_INVALID
  | PAYMENT_ID_WRONG_LENGTH
  | PAYMENT_ID_INVALID
  | MIXIN_TOO_SMALL
  | MIXIN_TOO_BIG
  | FEE_TOO_SMALL
  | WILL_OVERFLOW
  | NOT_ENOUGH_BALANCE
  | AMOUNT_UGLY

datatype Error = Error (errorCode: ErrorCode) (customMessage: string)

definition of_code :: "ErrorCode \<Rightarrow> Error" where
  "of_code c = Error c []"

text \<open>
  What a function can throw: the \<open>std::runtime_error\<close> of validateAmount, the
  \<open>std::out_of_range\<close> of \<open>std::string::substr\<close> when the start position lies beyond the
  string, and the interruption that a suspended \<open>Event::wait\<close> resolves with. A function
  that can throw returns \<open>exn + Error\<close>: \<open>Inl\<close> is the exception leaving the function,
  \<open>Inr\<close> the returned value.
\<close>

datatype exn = runtime_error string | out_of_range | interrupted

type_synonym uint64 = "64 word"

definition is_success :: "exn + Error \<Rightarrow> bool" where
  "is_success r = (case r of Inl x \<Rightarrow> False | Inr e \<Rightarrow> errorCode e = SUCCESS)"

subsection \<open>Decimal rendering: \<open>std::to_string\<close> on an unsigned integer\<close>

definition digit_char :: "nat \<Rightarrow> char" where
  "digit_char d = ''0123456789'' ! d"

fun to_string :: "nat \<Rightarrow> string" where
  [simp del]: "to_string n =
     (if n < 10 then [digit_char n] else to_string (n div 10) @ [digit_char (n mod 10)])"

subsection \<open>Declarations that the file uses and the repository's sources do not contain\<close>

text \<open>
  ValidateParameters.cpp reads constants of \<open>WalletConfig\<close> and
  \<open>CryptoNote::parameters\<close> and calls helpers of \<open>Utilities\<close>, \<open>Tools::Base58\<close>,
  \<open>CryptoNote\<close> and \<open>Common\<close> whose definitions are in other files. Each is a field of
  \<open>Config\<close>, a parameter of every function below. A C++ function that reports success by
  a \<open>bool\<close> and writes its result through a reference returns an \<open>option\<close> here. The
  types of keys, of parsed addresses and of the fee per byte are type parameters.
\<close>

record ('key, 'addr, 'fee) Config =
  standardAddressLength :: nat
  integratedAddressLength :: nat
  addressPrefix :: string
  MINIMUM_FEE_PER_BYTE_V1 :: 'fee
  CRYPTONOTE_PUBLIC_ADDRESS_BASE58_PREFIX :: uint64
  decode_addr :: "string \<Rightarrow> (uint64 \<times> string) option"
  createTxExtraWithPaymentId :: "string \<Rightarrow> 8 word list option"
  asBinaryArray :: "string \<Rightarrow> 8 word list"
  fromBinaryArray :: "8 word list \<Rightarrow> 'addr option"
  getAccountAddressAsStr :: "uint64 \<Rightarrow> 'addr \<Rightarrow> string"
  parseAccountAddressString :: "string \<Rightarrow> (uint64 \<times> 'addr) option"
  extractIntegratedAddressData :: "string \<Rightarrow> string \<times> string"
  addressToKeys :: "string \<Rightarrow> 'key \<times> 'key"
  addressesToSpendKeys :: "string list \<Rightarrow> 'key list"
  getTransactionSum :: "(string \<times> uint64) list \<Rightarrow> uint64"
  sumWillOverflow :: "uint64 list \<Rightarrow> bool"
  getMixinAllowableRange :: "uint64 \<Rightarrow> uint64 \<times> uint64 \<times> uint64"

text \<open>
  The wallet container: the public spend keys it holds and its \<open>getBalance\<close> method, which
  returns the available and the locked balance.
\<close>

record 'key SubWallets =
  m_publicSpendKeys :: "'key list"
  getBalance :: "'key list \<Rightarrow> bool \<Rightarrow> uint64 \<Rightarrow> uint64 \<times> uint64"

record 'fee FeeType =
  isFeePerByte :: bool
  feePerByte :: 'fee
  isFixedFee :: bool
  fixedFee :: uint64
  isMinimumFee :: bool

subsection \<open>validateHash and validatePaymentID\<close>

text \<open>
  \<open>std::regex_match\<close> for the one shape of pattern the file uses: a bracket expression of
  character ranges, repeated a fixed number of times, matched against the whole string.
  A range \<open>lo-hi\<close> holds the characters whose code lies between the codes of its ends.
\<close>

datatype regex = Bracket_repeat "(char \<times> char) list" nat

definition in_range :: "char \<times> char \<Rightarrow> char \<Rightarrow> bool" where
  "in_range r c = ((of_char (fst r) :: nat) \<le> of_char c \<and> (of_char c :: nat) \<le> of_char (snd r))"

fun bracket_match :: "(char \<times> char) list \<Rightarrow> char \<Rightarrow> bool" where
  "bracket_match [] c = False"
| "bracket_match (r # rs) c = (in_range r c \<or> bracket_match rs c)"

fun match_repeat :: "(char \<times> char) list \<Rightarrow> nat \<Rightarrow> string \<Rightarrow> bool" where
  "match_repeat rs 0 s = (s = [])"
| "match_repeat rs (Suc n) [] = False"
| "match_repeat rs (Suc n) (c # cs) = (bracket_match rs c \<and> match_repeat rs n cs)"

fun regex_match :: "string \<Rightarrow> regex \<Rightarrow> bool" where
  "regex_match s (Bracket_repeat rs n) = match_repeat rs n s"

text \<open>The pattern \<open>[a-zA-Z0-9]{64}\<close>, which both functions name \<open>hexRegex\<close>.\<close>

definition hexRegex :: regex where
  "hexRegex =
     Bracket_repeat [(CHR ''a'', CHR ''z''), (CHR ''A'', CHR ''Z''), (CHR ''0'', CHR ''9'')] 64"

definition validateHash :: "string \<Rightarrow> Error" where
  "validateHash hash =
     (if length hash \<noteq> 64 then of_code HASH_WRONG_LENGTH
      else if \<not> regex_match hash hexRegex then of_code HASH_INVALID
      else of_code SUCCESS)"

definition validatePaymentID :: "string \<Rightarrow> Error" where
  "validatePaymentID paymentID =
     (if paymentID = [] then of_code SUCCESS
      else if length paymentID \<noteq> 64 then of_code PAYMENT_ID_WRONG_LENGTH
      else if \<not> regex_match paymentID hexRegex then of_code PAYMENT_ID_INVALID
      else of_code SUCCESS)"

text \<open>
  The alphabet of the claim, written out: the 62 letters and digits, among them the 40
  letters that are not hexadecimal digits.
\<close>

definition alphanumeric :: "char \<Rightarrow> bool" where
  "alphanumeric c =
     (c \<in> set ''abcdefghijklmnopqrstuvwxyzABCDEFGHIJKLMNOPQRSTUVWXYZ0123456789'')"

subsection \<open>validateMixin\<close>

definition validateMixin :: "('key, 'addr, 'fee) Config \<Rightarrow> uint64 \<Rightarrow> uint64 \<Rightarrow> Error" where
  "validateMixin cfg mixin height =
     (case getMixinAllowableRange cfg height of (minMixin, maxMixin, defaultMixin) \<Rightarrow>
        if mixin < minMixin then
          Error MIXIN_TOO_SMALL
            (''The mixin value given ('' @ to_string (unat mixin)
               @ '') is lower than the minimum mixin allowed ('' @ to_string (unat minMixin) @ '')'')
        else if mixin > maxMixin then
          Error MIXIN_TOO_BIG
            (''The mixin value given ('' @ to_string (unat mixin)
               @ '') is greater than the maximum mixin allowed ('' @ to_string (unat maxMixin) @ '')'')
        else of_code SUCCESS)"

subsection \<open>validateAddresses\<close>

text \<open>
  The body of the loop over the addresses. \<open>Some r\<close> is a \<open>return r\<close> inside the loop,
  \<open>None\<close> is reaching the end of the body, after which the loop takes the next address.
  \<open>decoded.substr(paymentIDLen, npos)\<close> throws when \<open>decoded\<close> is shorter than 64
  characters; \<open>substr(0, n)\<close> never throws and is \<open>take n\<close>.
\<close>

definition validateAddress_step ::
  "('key, 'addr, 'fee) Config \<Rightarrow> bool \<Rightarrow> string \<Rightarrow> (exn + Error) option" where
  "validateAddress_step cfg integratedAddressesAllowed address =
     (if length address \<noteq> standardAddressLength cfg
         \<and> length address \<noteq> integratedAddressLength cfg then
        Some (Inr (Error ADDRESS_WRONG_LENGTH
          (''The address given is the wrong length. It should be ''
             @ to_string (standardAddressLength cfg) @ '' chars or ''
             @ to_string (integratedAddressLength cfg) @ '' chars, but '' @ ''it is ''
             @ to_string (length address) @ '' chars.'')))
      else if take (length (addressPrefix cfg)) address \<noteq> addressPrefix cfg then
        Some (Inr (of_code ADDRESS_WRONG_PREFIX))
      else
        (let converted =
           (if length address = integratedAddressLength cfg then
              (if \<not> integratedAddressesAllowed then
                 Inl (Inr (Error ADDRESS_IS_INTEGRATED
                   (''The address given ('' @ address
                      @ '') is an integrated address, but integrated addresses aren't ''
                      @ ''valid for this parameter.'')))
               else
                 (case decode_addr cfg address of
                    None \<Rightarrow> Inl (Inr (of_code ADDRESS_NOT_BASE58))
                  | Some (ignore, decoded) \<Rightarrow>
                      (let paymentIDLen = 64; paymentID = take paymentIDLen decoded
                       in case createTxExtraWithPaymentId cfg paymentID of
                            None \<Rightarrow> Inl (Inr (of_code INTEGRATED_ADDRESS_PAYMENT_ID_INVALID))
                          | Some extra \<Rightarrow>
                              (if paymentIDLen > length decoded then Inl (Inl out_of_range)
                               else
                                 (let keys = drop paymentIDLen decoded;
                                      ba = asBinaryArray cfg keys
                                  in case fromBinaryArray cfg ba of
                                       None \<Rightarrow> Inl (Inr (of_code ADDRESS_NOT_VALID))
                                     | Some addr \<Rightarrow>
                                         Inr (getAccountAddressAsStr cfg
                                                (CRYPTONOTE_PUBLIC_ADDRESS_BASE58_PREFIX cfg) addr))))))
            else Inr address)
         in case converted of
              Inl r \<Rightarrow> Some r
            | Inr address' \<Rightarrow>
                (case parseAccountAddressString cfg address' of
                   None \<Rightarrow> Some (Inr (of_code ADDRESS_NOT_VALID))
                 | Some parsed \<Rightarrow> None)))"

fun validateAddresses ::
  "('key, 'addr, 'fee) Config \<Rightarrow> string list \<Rightarrow> bool \<Rightarrow> exn + Error" where
  "validateAddresses cfg [] integratedAddressesAllowed = Inr (of_code SUCCESS)"
| "validateAddresses cfg (address # addresses) integratedAddressesAllowed =
     (case validateAddress_step cfg integratedAddressesAllowed address of
        Some r \<Rightarrow> r
      | None \<Rightarrow> validateAddresses cfg addresses integratedAddressesAllowed)"

subsection \<open>validateOurAddresses\<close>

fun addresses_in_wallet ::
  "('key, 'addr, 'fee) Config \<Rightarrow> string list \<Rightarrow> 'key SubWallets \<Rightarrow> Error" where
  "addresses_in_wallet cfg [] subWallets = of_code SUCCESS"
| "addresses_in_wallet cfg (address # addresses) subWallets =
     (case addressToKeys cfg address of (spendKey, viewKey) \<Rightarrow>
        if spendKey \<notin> set (m_publicSpendKeys subWallets) then
          Error ADDRESS_NOT_IN_WALLET
            (''The address given ('' @ address
               @ '') does not exist in the wallet container, but it is ''
               @ ''required to exist for this operation.'')
        else addresses_in_wallet cfg addresses subWallets)"

definition validateOurAddresses ::
  "('key, 'addr, 'fee) Config \<Rightarrow> string list \<Rightarrow> 'key SubWallets \<Rightarrow> exn + Error" where
  "validateOurAddresses cfg addresses subWallets =
     (case validateAddresses cfg addresses False of
        Inl x \<Rightarrow> Inl x
      | Inr error \<Rightarrow>
          if errorCode error \<noteq> SUCCESS then Inr error
          else Inr (addresses_in_wallet cfg addresses subWallets))"

subsection \<open>validateDestinations\<close>

text \<open>
  The loop that rejects a zero amount and collects the destination addresses: \<open>Inl\<close> is
  its \<open>return AMOUNT_IS_ZERO\<close>, \<open>Inr\<close> the vector \<open>destinationAddresses\<close> after the loop.
\<close>

fun collect_destinations ::
  "(string \<times> uint64) list \<Rightarrow> string list \<Rightarrow> Error + string list" where
  "collect_destinations [] destinationAddresses = Inr destinationAddresses"
| "collect_destinations ((destination, amount) # rest) destinationAddresses =
     (if amount = 0 then Inl (of_code AMOUNT_IS_ZERO)
      else collect_destinations rest (destinationAddresses @ [destination]))"

definition validateDestinations ::
  "('key, 'addr, 'fee) Config \<Rightarrow> (string \<times> uint64) list \<Rightarrow> exn + Error" where
  "validateDestinations cfg destinations =
     (if destinations = [] then Inr (of_code NO_DESTINATIONS_GIVEN)
      else
        (case collect_destinations destinations [] of
           Inl e \<Rightarrow> Inr e
         | Inr destinationAddresses \<Rightarrow>
             (case validateAddresses cfg destinationAddresses True of
                Inl x \<Rightarrow> Inl x
              | Inr error \<Rightarrow>
                  if errorCode error \<noteq> SUCCESS then Inr error else Inr (of_code SUCCESS))))"

subsection \<open>validateIntegratedAddresses\<close>

fun validateIntegratedAddresses ::
  "('key, 'addr, 'fee) Config \<Rightarrow> (string \<times> uint64) list \<Rightarrow> string \<Rightarrow> Error" where
  "validateIntegratedAddresses cfg [] paymentID = of_code SUCCESS"
| "validateIntegratedAddresses cfg ((address, amount) # rest) paymentID =
     (if length address \<noteq> integratedAddressLength cfg then
        validateIntegratedAddresses cfg rest paymentID
      else
        (case extractIntegratedAddressData cfg address of
           (extractedAddress, extractedPaymentID) \<Rightarrow>
             if paymentID = [] then validateIntegratedAddresses cfg rest extractedPaymentID
             else if paymentID \<noteq> extractedPaymentID then of_code CONFLICTING_PAYMENT_IDS
             else validateIntegratedAddresses cfg rest paymentID))"

subsection \<open>validateAmount\<close>

definition validateAmount ::
  "('key, 'addr, 'fee :: ord) Config \<Rightarrow> (string \<times> uint64) list \<Rightarrow> 'fee FeeType \<Rightarrow>
     string list \<Rightarrow> 'key SubWallets \<Rightarrow> uint64 \<Rightarrow> exn + Error" where
  "validateAmount cfg destinations fee subWalletsToTakeFrom subWallets currentHeight =
     (if \<not> isFeePerByte fee \<and> \<not> isFixedFee fee \<and> \<not> isMinimumFee fee then
        Inl (runtime_error ''Programmer error: fee type not specified'')
      else if isFeePerByte fee \<and> feePerByte fee < MINIMUM_FEE_PER_BYTE_V1 cfg then
        Inr (of_code FEE_TOO_SMALL)
      else
        (case getBalance subWallets (addressesToSpendKeys cfg subWalletsToTakeFrom)
                (subWalletsToTakeFrom = []) currentHeight of
           (availableBalance, lockedBalance) \<Rightarrow>
             (let totalAmount0 = getTransactionSum cfg destinations;
                  totalAmount = (if isFixedFee fee then totalAmount0 + fixedFee fee else totalAmount0);
                  amounts0 = (if isFixedFee fee then [fixedFee fee] else []);
                  amounts = amounts0 @ map snd destinations
              in if sumWillOverflow cfg amounts then Inr (of_code WILL_OVERFLOW)
                 else if totalAmount > availableBalance then Inr (of_code NOT_ENOUGH_BALANCE)
                 else Inr (of_code SUCCESS))))"

subsection \<open>validateTransaction\<close>

text \<open>
  Seven times \<open>if (Error error = check; error != SUCCESS) { return error; }\<close>, then
  \<open>return SUCCESS;\<close>. An exception of a check leaves validateTransaction.
\<close>

definition validateTransaction ::
  "('key, 'addr, 'fee :: ord) Config \<Rightarrow> (string \<times> uint64) list \<Rightarrow> uint64 \<Rightarrow> 'fee FeeType \<Rightarrow>
     string \<Rightarrow> string list \<Rightarrow> string \<Rightarrow> 'key SubWallets \<Rightarrow> uint64 \<Rightarrow> exn + Error" where
  "validateTransaction cfg destinations mixin fee paymentID subWalletsToTakeFrom changeAddress
       subWallets currentHeight =
     (case validateDestinations cfg destinations of
        Inl x \<Rightarrow> Inl x
      | Inr error \<Rightarrow>
     if errorCode error \<noteq> SUCCESS then Inr error else
     (let error = validateIntegratedAddresses cfg destinations paymentID in
     if errorCode error \<noteq> SUCCESS then Inr error else
     (case validateOurAddresses cfg subWalletsToTakeFrom subWallets of
        Inl x \<Rightarrow> Inl x
      | Inr error \<Rightarrow>
     if errorCode error \<noteq> SUCCESS then Inr error else
     (case validateAmount cfg destinations fee subWalletsToTakeFrom subWallets currentHeight of
        Inl x \<Rightarrow> Inl x
      | Inr error \<Rightarrow>
     if errorCode error \<noteq> SUCCESS then Inr error else
     (let error = validateMixin cfg mixin currentHeight in
     if errorCode error \<noteq> SUCCESS then Inr error else
     (let error = validatePaymentID paymentID in
     if errorCode error \<noteq> SUCCESS then Inr error else
     (case validateOurAddresses cfg [changeAddress] subWallets of
        Inl x \<Rightarrow> Inl x
      | Inr error \<Rightarrow>
     if errorCode error \<noteq> SUCCESS then Inr error else
     Inr (of_code SUCCESS))))))))"

subsection \<open>validateOptimizeTarget\<close>

text \<open>
  The function computes \<open>(strTarget[0] - '0') * pow(10, strTarget.length() - 1)\<close> in
  \<open>double\<close> and converts the product to \<open>uint64_t\<close>. Every value of that computation is
  an integer, so a \<open>double\<close> is represented by the integer it holds, and the rounding of
  IEEE 754 binary64 is written out: an integer of more than 53 bits is rounded to the
  nearest multiple of the power of two that leaves 53 bits, ties to the even multiple.
  \<open>pow\<close> returns the rounded power and the multiplication the rounded product. Converting
  a \<open>double\<close> outside the range of \<open>uint64_t\<close> is undefined behaviour: \<open>None\<close>.
\<close>

fun bitlen :: "nat \<Rightarrow> nat" where
  [simp del]: "bitlen n = (if n = 0 then 0 else Suc (bitlen (n div 2)))"

definition round_to_multiple :: "nat \<Rightarrow> nat \<Rightarrow> nat" where
  "round_to_multiple n e =
     (let q = n div 2 ^ e; r = n mod 2 ^ e
      in (if 2 * r < 2 ^ e \<or> (2 * r = 2 ^ e \<and> even q) then q else q + 1) * 2 ^ e)"

definition round_double :: "nat \<Rightarrow> nat" where
  "round_double n = (if bitlen n \<le> 53 then n else round_to_multiple n (bitlen n - 53))"

definition round_double_int :: "int \<Rightarrow> int" where
  "round_double_int x =
     (if x < 0 then - int (round_double (nat (- x))) else int (round_double (nat x)))"

definition pow_double :: "nat \<Rightarrow> nat \<Rightarrow> int" where
  "pow_double b k = round_double_int (int (b ^ k))"

definition mul_double :: "int \<Rightarrow> int \<Rightarrow> int" where
  "mul_double a b = round_double_int (a * b)"

definition double_to_uint64 :: "int \<Rightarrow> uint64 option" where
  "double_to_uint64 x = (if 0 \<le> x \<and> x < 2 ^ 64 then Some (word_of_int x) else None)"

definition validateOptimizeTarget :: "uint64 option \<Rightarrow> Error option" where
  "validateOptimizeTarget optimizeTarget =
     (case optimizeTarget of
        None \<Rightarrow> Some (of_code SUCCESS)
      | Some target \<Rightarrow>
          (let strTarget = to_string (unat target);
               product = mul_double (int (of_char (strTarget ! 0)) - int (of_char (CHR ''0'')))
                           (pow_double 10 (length strTarget - 1))
           in case double_to_uint64 product of
                None \<Rightarrow> None
              | Some validTarget \<Rightarrow>
                  Some (if target \<noteq> validTarget then of_code AMOUNT_UGLY else of_code SUCCESS)))"

text \<open>
  The two quantities of the claim, computed on the number itself: how many decimal digits
  it has, and its leading decimal digit.
\<close>

fun num_digits :: "nat \<Rightarrow> nat" where
  [simp del]: "num_digits n = (if n < 10 then 1 else Suc (num_digits (n div 10)))"

fun leading_digit :: "nat \<Rightarrow> nat" where
  [simp del]: "leading_digit n = (if n < 10 then n else leading_digit (n div 10))"

subsection \<open>A concrete configuration\<close>

text \<open>
  One instance of the missing declarations, on which the functions above are evaluated at
  concrete inputs: addresses of five characters that start with \<open>TR\<close>, integrated
  addresses of nine, keys and parsed addresses that are the address string itself, and a
  fee per byte that is a natural number.
\<close>

definition example_config :: "(string, string, nat) Config" where
  "example_config =
     \<lparr> standardAddressLength = 5,
       integratedAddressLength = 9,
       addressPrefix = ''TR'',
       MINIMUM_FEE_PER_BYTE_V1 = 2,
       CRYPTONOTE_PUBLIC_ADDRESS_BASE58_PREFIX = 1,
       decode_addr = (\<lambda>s. Some (1, replicate 64 (CHR ''a'') @ take 5 s)),
       createTxExtraWithPaymentId = (\<lambda>p. if length p = 64 then Some [] else None),
       asBinaryArray = map of_char,
       fromBinaryArray = (\<lambda>ba. Some (map (\<lambda>b. char_of (unat b)) ba)),
       getAccountAddressAsStr = (\<lambda>tag addr. addr),
       parseAccountAddressString = (\<lambda>s. if length s = 5 then Some (1, s) else None),
       extractIntegratedAddressData = (\<lambda>s. (take 5 s, replicate 64 (CHR ''a''))),
       addressToKeys = (\<lambda>s. (s, s)),
       addressesToSpendKeys = (\<lambda>addrs. addrs),
       getTransactionSum = (\<lambda>ds. sum_list (map snd ds)),
       sumWillOverflow = (\<lambda>amounts. 2 ^ 64 \<le> sum_list (map unat amounts)),
       getMixinAllowableRange = (\<lambda>height. (0, 7, 3)) \<rparr>"

definition example_wallet :: "string SubWallets" where
  "example_wallet =
     \<lparr> m_publicSpendKeys = [''TRabc'', ''TRxyz''],
       getBalance = (\<lambda>keys takeFromAll height. (1000, 0)) \<rparr>"

definition fee_unspecified :: "nat FeeType" where
  "fee_unspecified =
     \<lparr> isFeePerByte = False, feePerByte = 0, isFixedFee = False, fixedFee = 0,
       isMinimumFee = False \<rparr>"

definition fee_fixed :: "uint64 \<Rightarrow> nat FeeType" where
  "fee_fixed f =
     \<lparr> isFeePerByte = False, feePerByte = 0, isFixedFee = True, fixedFee = f,
       isMinimumFee = False \<rparr>"

definition fee_per_byte :: "nat \<Rightarrow> nat FeeType" where
  "fee_per_byte f =
     \<lparr> isFeePerByte = True, feePerByte = f, isFixedFee = False, fixedFee = 0,
       isMinimumFee = False \<rparr>"

subsection \<open>The checks of validateTransaction, in the order of the source\<close>

text \<open>
  The seven checks that validateTransaction performs, and the outcome of the first of a
  list of checks that is not a returned success.
\<close>

fun first_failing :: "(exn + Error) list \<Rightarrow> exn + Error" where
  "first_failing [] = Inr (of_code SUCCESS)"
| "first_failing (c # cs) = (if is_success c then first_failing cs else c)"

definition transaction_checks ::
  "('key, 'addr, 'fee :: ord) Config \<Rightarrow> (string \<times> uint64) list \<Rightarrow> uint64 \<Rightarrow> 'fee FeeType \<Rightarrow>
     string \<Rightarrow> string list \<Rightarrow> string \<Rightarrow> 'key SubWallets \<Rightarrow> uint64 \<Rightarrow> (exn + Error) list" where
  "transaction_checks cfg destinations mixin fee paymentID subWalletsToTakeFrom changeAddress
       subWallets currentHeight =
     [validateDestinations cfg destinations,
      Inr (validateIntegratedAddresses cfg destinations paymentID),
      validateOurAddresses cfg subWalletsToTakeFrom subWallets,
      validateAmount cfg destinations fee subWalletsToTakeFrom subWallets currentHeight,
      Inr (validateMixin cfg mixin currentHeight),
      Inr (validatePaymentID paymentID),
      validateOurAddresses cfg [changeAddress] subWallets]"

section \<open>EventLock (EventLock.cpp)\<close>

text \<open>
  EventLock uses four operations of \<open>System::Event\<close>, whose declaration is in another
  file: they are the fields of \<open>Event\<close>. The type \<open>'w\<close> is the state of the runtime as
  the Context that runs the code sees it: the Event, its Dispatcher and the other
  Contexts. \<open>wait\<close> returns when the Context runs again, with the state as it is then; a
  Context that was interrupted while it was suspended leaves \<open>wait\<close> by an exception.
  Every call that EventLock makes is recorded, in order.
\<close>

datatype event_call = Call_get bool | Call_wait | Call_clear | Call_set

record 'w Event =
  ev_get :: "'w \<Rightarrow> bool"
  ev_wait :: "'w \<Rightarrow> exn option \<times> 'w"
  ev_clear :: "'w \<Rightarrow> 'w"
  ev_set :: "'w \<Rightarrow> 'w"

text \<open>
  The constructor: \<open>while (!event.get()) { event.wait(); } event.clear();\<close>. The loop has
  no bound, so the constructor is a partial function: \<open>None\<close> is a constructor that never
  returns. \<open>Some (Some x, _)\<close> is the exception \<open>x\<close> of a \<open>wait\<close> leaving the
  constructor, \<open>Some (None, w, calls)\<close> a normal return.
\<close>

partial_function (option) EventLock_ctor ::
  "'w Event \<Rightarrow> 'w \<Rightarrow> event_call list \<Rightarrow> (exn option \<times> 'w \<times> event_call list) option" where
  "EventLock_ctor event w calls =
     (if \<not> ev_get event w then
        (case ev_wait event w of
           (Some x, w') \<Rightarrow> Some (Some x, w', calls @ [Call_get False, Call_wait])
         | (None, w') \<Rightarrow> EventLock_ctor event w' (calls @ [Call_get False, Call_wait]))
      else Some (None, ev_clear event w, calls @ [Call_get True, Call_clear]))"

text \<open>The destructor: \<open>event.set();\<close>.\<close>

definition EventLock_dtor :: "'w Event \<Rightarrow> 'w \<Rightarrow> event_call list \<Rightarrow> 'w \<times> event_call list" where
  "EventLock_dtor event w calls = (ev_set event w, calls @ [Call_set])"

text \<open>
  A block \<open>{ EventLock lock(event); body }\<close>. The body leaves the block by reaching its
  end, by a \<open>return\<close> or by an exception; C++ runs the destructor of the constructed
  guard on each of these paths. When the constructor itself throws, no guard exists and
  no destructor runs.
\<close>

datatype 'a scope_exit = Reaches_end | Returns 'a | Throws exn

definition guarded_scope ::
  "'w Event \<Rightarrow> ('w \<Rightarrow> 'a scope_exit \<times> 'w) \<Rightarrow> 'w \<Rightarrow> event_call list \<Rightarrow>
     ('a scope_exit \<times> 'w \<times> event_call list) option" where
  "guarded_scope event body w calls =
     (case EventLock_ctor event w calls of
        None \<Rightarrow> None
      | Some (Some x, w1, calls1) \<Rightarrow> Some (Throws x, w1, calls1)
      | Some (None, w1, calls1) \<Rightarrow>
          (case body w1 of (exit, w2) \<Rightarrow>
             (case EventLock_dtor event w2 calls1 of (w3, calls3) \<Rightarrow> Some (exit, w3, calls3))))"

text \<open>
  The state after \<open>n\<close> rounds of the loop, each entered with \<open>get()\<close> false and left by
  a \<open>wait()\<close> that returned; and the calls of a constructor that returns after \<open>n\<close> rounds.
\<close>

fun after_waits :: "'w Event \<Rightarrow> nat \<Rightarrow> 'w \<Rightarrow> 'w option" where
  "after_waits event 0 w = Some w"
| "after_waits event (Suc n) w =
     (if ev_get event w then None
      else (case ev_wait event w of
              (Some x, w') \<Rightarrow> None
            | (None, w') \<Rightarrow> after_waits event n w'))"

definition acquire_calls :: "nat \<Rightarrow> event_call list" where
  "acquire_calls n =
     concat (replicate n [Call_get False, Call_wait]) @ [Call_get True, Call_clear]"

text \<open>
  An Event for concrete runs: its state is the boolean and a countdown; the Context that holds
  the Event sets it when the countdown of a waiting Context reaches zero.
\<close>

definition countdown_event :: "(bool \<times> nat) Event" where
  "countdown_event =
     \<lparr> ev_get = fst,
       ev_wait = (\<lambda>(b, n). (None, (b \<or> n \<le> 1, n - 1))),
       ev_clear = (\<lambda>(b, n). (False, n)),
       ev_set = (\<lambda>(b, n). (True, n)) \<rparr>"

section \<open>Event and Dispatcher\<close>

text \<open>
  The sources contain EventLock.cpp but neither \<open>System::Event\<close> nor
  \<open>System::Dispatcher\<close>. What a claim about waiting and resuming Contexts depends on is
  modelled from the specification.
\<close>

text \<open>
  Modelled from the spec: the data of Event and Dispatcher, missing from the sources. The
  Event is a "boolean flag + ordered queue of Contexts blocked in wait()", the Dispatcher
  "owns a ready queue (FIFO, insertion order)". A queue entry is the handle of a Context
  with its saved execution state \<open>'k\<close>. Two histories are kept beside them: the Contexts
  that suspended in \<open>wait()\<close> and the Contexts that \<open>set()\<close> resumed, in order.
\<close>

type_synonym ctx = nat

record 'k runtime =
  flag :: bool
  waiting :: "(ctx \<times> 'k) list"
  ready_queue :: "(ctx \<times> 'k) list"
  wait_log :: "ctx list"
  resume_log :: "ctx list"

text \<open>
  Modelled from the spec: \<open>Event::get\<close>, missing from the sources, is the
  "non-suspending read of current state".
\<close>

definition Event_get :: "('k, 'z) runtime_scheme \<Rightarrow> bool" where
  "Event_get r = flag r"

text \<open>
  Modelled from the spec: \<open>Event::clear\<close>, missing from the sources, "marks false; has no
  effect on Contexts already released by a prior set()".
\<close>

definition Event_clear :: "('k, 'z) runtime_scheme \<Rightarrow> ('k, 'z) runtime_scheme" where
  "Event_clear r = r\<lparr>flag := False\<rparr>"

text \<open>
  Modelled from the spec: \<open>Event::set\<close>, missing from the sources, "marks true; resumes
  every currently waiting Context in FIFO arrival order (broadcast wake)". To resume a
  Context is to append it to the ready queue of the Dispatcher.
\<close>

definition Event_set :: "('k, 'z) runtime_scheme \<Rightarrow> ('k, 'z) runtime_scheme" where
  "Event_set r =
     r\<lparr>flag := True,
       ready_queue := ready_queue r @ waiting r,
       resume_log := resume_log r @ map fst (waiting r),
       waiting := []\<rparr>"

text \<open>
  Modelled from the spec: \<open>Event::wait\<close>, missing from the sources: "if already true,
  returns immediately without suspending; else enqueues the calling Context and suspends
  until a matching set() resumes it". The result says whether the call returned at once;
  if not, the Context \<open>c\<close> is in the queue with its saved state \<open>k\<close>.
\<close>

definition Event_wait ::
  "ctx \<Rightarrow> 'k \<Rightarrow> ('k, 'z) runtime_scheme \<Rightarrow> bool \<times> ('k, 'z) runtime_scheme" where
  "Event_wait c k r =
     (if flag r then (True, r)
      else (False, r\<lparr>waiting := waiting r @ [(c, k)], wait_log := wait_log r @ [c]\<rparr>))"

subsection \<open>Sequences of operations on one Event\<close>

text \<open>
  The operations that running Contexts perform on the Event, one after the other; how
  often \<open>set()\<close> resumed a Context, how often the Context is in the queue of the Event,
  and how often it is in the ready queue.
\<close>

datatype 'k event_op = Op_wait ctx 'k | Op_set | Op_clear

fun apply_op :: "'k event_op \<Rightarrow> ('k, 'z) runtime_scheme \<Rightarrow> ('k, 'z) runtime_scheme" where
  "apply_op (Op_wait c k) r = snd (Event_wait c k r)"
| "apply_op Op_set r = Event_set r"
| "apply_op Op_clear r = Event_clear r"

definition run_ops :: "'k event_op list \<Rightarrow> ('k, 'z) runtime_scheme \<Rightarrow> ('k, 'z) runtime_scheme" where
  "run_ops ops r = fold apply_op ops r"

fun wait_by :: "ctx \<Rightarrow> 'k event_op \<Rightarrow> bool" where
  "wait_by c (Op_wait d k) = (d = c)"
| "wait_by c op = False"

definition resumes :: "ctx \<Rightarrow> ('k, 'z) runtime_scheme \<Rightarrow> nat" where
  "resumes c r = count_list (resume_log r) c"

definition blocked :: "ctx \<Rightarrow> ('k, 'z) runtime_scheme \<Rightarrow> nat" where
  "blocked c r = count_list (map fst (waiting r)) c"

definition made_ready :: "ctx \<Rightarrow> ('k, 'z) runtime_scheme \<Rightarrow> nat" where
  "made_ready c r = count_list (map fst (ready_queue r)) c"

definition fresh_event :: "nat runtime" where
  "fresh_event = \<lparr>flag = False, waiting = [], ready_queue = [], wait_log = [], resume_log = []\<rparr>"

subsection \<open>Contexts that contend for an EventLock\<close>

text \<open>
  What a contending Context executes: the constructor of EventLock, the destructor of
  EventLock, and suspension points before the guarded section and inside it. The saved
  state of a Context is the list of instructions it has still to execute.
\<close>

datatype instr = Yield | Lock | Unlock

text \<open>
  Three more histories: the Contexts now inside the guarded section, the Contexts that
  entered it, in order, and whether a Context ever entered while another was inside.
\<close>

record guarded = "instr list runtime" +
  inside :: "ctx list"
  entered :: "ctx list"
  overlap :: bool

definition enter :: "ctx \<Rightarrow> guarded \<Rightarrow> guarded" where
  "enter c g = g\<lparr>inside := inside g @ [c], entered := entered g @ [c],
                 overlap := (overlap g \<or> inside g \<noteq> [])\<rparr>"

definition leave :: "ctx \<Rightarrow> guarded \<Rightarrow> guarded" where
  "leave c g = g\<lparr>inside := removeAll c (inside g)\<rparr>"

text \<open>
  Modelled from the spec: the Dispatcher, missing from the sources, runs a Context "until
  it yields, suspends, or terminates"; \<open>yield()\<close> "moves it to the back of the ready
  queue". \<open>Lock\<close> and \<open>Unlock\<close> are the code of EventLock.cpp: the constructor tests
  \<open>get()\<close>; when it is false it calls \<open>wait()\<close>, which suspends the Context, and the
  resumed Context tests \<open>get()\<close> again, so its saved state starts with the constructor;
  when it is true the constructor calls \<open>clear()\<close> and returns. The destructor calls
  \<open>set()\<close>.
\<close>

fun run_context :: "ctx \<Rightarrow> instr list \<Rightarrow> guarded \<Rightarrow> guarded" where
  "run_context c [] g = g"
| "run_context c (Yield # k) g = g\<lparr>ready_queue := ready_queue g @ [(c, k)]\<rparr>"
| "run_context c (Lock # k) g =
     (if \<not> Event_get g then snd (Event_wait c (Lock # k) g)
      else run_context c k (enter c (Event_clear g)))"
| "run_context c (Unlock # k) g = run_context c k (Event_set (leave c g))"

text \<open>The instructions saved in the two queues: what the Dispatcher has still to run.\<close>

definition pending :: "guarded \<Rightarrow> nat" where
  "pending g = sum_list (map (length \<circ> snd) (ready_queue g @ waiting g))"

lemma pending_run_context:
  "pending (run_context c k g) \<le> pending g + length k \<and>
   (pending (run_context c k g) = pending g + length k \<longrightarrow>
      length (ready_queue (run_context c k g)) \<le> length (ready_queue g))"
proof (induction c k g rule: run_context.induct)
  case (1 c g)
  then show ?case by simp
next
  case (2 c k g)
  then show ?case by (simp add: pending_def)
next
  case (3 c k g)
  show ?case
  proof (cases "Event_get g")
    case True
    have "pending (enter c (Event_clear g)) = pending g"
      by (simp add: pending_def enter_def Event_clear_def)
    with 3 True show ?thesis by auto
  next
    case False
    then show ?thesis by (simp add: pending_def Event_wait_def Event_get_def)
  qed
next
  case (4 c k g)
  have "pending (Event_set (leave c g)) = pending g"
    by (simp add: pending_def leave_def Event_set_def)
  with 4 show ?case by auto
qed

text \<open>
  Modelled from the spec: the loop of the Dispatcher, missing from the sources: "if the
  ready queue is non-empty, run the next Ready context", in FIFO order. With an empty
  ready queue the Dispatcher blocks on the notification of the operating system; no
  Context of this model is resumed by one, so the loop ends there. The loop terminates:
  each round either consumes an instruction or moves a Context from the ready queue to
  the queue of the Event.
\<close>

function dispatch :: "guarded \<Rightarrow> guarded" where
  [simp del]: "dispatch g =
     (case ready_queue g of
        [] \<Rightarrow> g
      | (c, k) # rest \<Rightarrow> dispatch (run_context c k (g\<lparr>ready_queue := rest\<rparr>)))"
  by pat_completeness auto

termination dispatch
proof (relation "pending <*mlex*> measure (\<lambda>g. length (ready_queue g))")
  show "wf (pending <*mlex*> measure (\<lambda>g. length (ready_queue g)))"
    by (simp add: wf_mlex)
next
  fix g :: guarded and x rest c k
  assume a: "ready_queue g = x # rest" "(c, k) = x"
  let ?g0 = "g\<lparr>ready_queue := rest\<rparr>"
  have p: "pending g = pending ?g0 + length k"
    using a by (auto simp: pending_def)
  have l: "length (ready_queue ?g0) < length (ready_queue g)" using a by simp
  from pending_run_context[of c k ?g0] p l
  show "(run_context c k ?g0, g) \<in> pending <*mlex*> measure (\<lambda>g. length (ready_queue g))"
    by (auto simp: mlex_iff)
qed

text \<open>
  The runtime when the Contexts \<open>cs\<close> have been spawned, in this order, each with the
  program it runs, and the Event has the value \<open>f\<close>.
\<close>

definition start :: "bool \<Rightarrow> (ctx \<times> instr list) list \<Rightarrow> guarded" where
  "start f cs = \<lparr>flag = f, waiting = [], ready_queue = cs, wait_log = [], resume_log = [],
                inside = [], entered = [], overlap = False\<rparr>"

text \<open>
  The programs that use the Event through EventLock only. An EventLock is an object with
  automatic storage, so the destructor runs at the end of the block of a constructor
  that has returned, and a program ends with no block open. \<open>scoped d k\<close>: the rest \<open>k\<close>
  of a program is of this form when \<open>d\<close> guards are alive.
\<close>

fun scoped :: "nat \<Rightarrow> instr list \<Rightarrow> bool" where
  "scoped d [] = (d = 0)"
| "scoped d (Yield # k) = scoped d k"
| "scoped d (Lock # k) = scoped (Suc d) k"
| "scoped 0 (Unlock # k) = False"
| "scoped (Suc d) (Unlock # k) = scoped d k"

text \<open>
  The programs among them in which no Context constructs an EventLock while it holds
  one; \<open>h\<close> says whether a guard is alive.
\<close>

fun unnested :: "bool \<Rightarrow> instr list \<Rightarrow> bool" where
  "unnested h [] = (\<not> h)"
| "unnested h (Yield # k) = unnested h k"
| "unnested h (Lock # k) = (\<not> h \<and> unnested True k)"
| "unnested h (Unlock # k) = (h \<and> unnested False k)"

text \<open>
  A Context whose whole program is one guarded block with suspension points only inside
  it: \<open>in_section\<close> is the rest of that block, \<open>at_lock\<close> the program itself, which
  starts with the constructor.
\<close>

fun in_section :: "instr list \<Rightarrow> bool" where
  "in_section [Unlock] = True"
| "in_section (Yield # k) = in_section k"
| "in_section k = False"

fun at_lock :: "instr list \<Rightarrow> bool" where
  "at_lock (Lock # k) = in_section k"
| "at_lock k = False"

text \<open>
  How often each Context has still to enter the guarded section: once for every
  constructor in the programs of a queue.
\<close>

definition locks :: "(ctx \<times> instr list) list \<Rightarrow> ctx multiset" where
  "locks q = sum_list (map (\<lambda>x. replicate_mset (count_list (snd x) Lock) (fst x)) q)"

text \<open>
  The invariant of the Dispatcher loop for mutual exclusion. \<open>holders\<close> are the queue
  entries with a guard alive. \<open>excl_running\<close> is the invariant while the Context \<open>c\<close>
  runs with \<open>k\<close> still to execute.
\<close>

definition holders :: "(ctx \<times> instr list) list \<Rightarrow> (ctx \<times> instr list) list" where
  "holders q = filter (\<lambda>x. scoped (Suc 0) (snd x)) q"

definition queues_scoped :: "guarded \<Rightarrow> bool" where
  "queues_scoped g =
     (list_all (\<lambda>x. scoped 0 (snd x) \<or> scoped (Suc 0) (snd x)) (ready_queue g @ waiting g) \<and>
      (flag g \<longrightarrow> inside g = []) \<and> \<not> overlap g)"

definition excl_inv :: "guarded \<Rightarrow> bool" where
  "excl_inv g =
     (queues_scoped g \<and>
      inside g = map fst (holders (ready_queue g) @ holders (waiting g)) \<and>
      length (inside g) \<le> 1)"

definition excl_running :: "ctx \<Rightarrow> instr list \<Rightarrow> guarded \<Rightarrow> bool" where
  "excl_running c k g =
     (queues_scoped g \<and>
      (if scoped (Suc 0) k then
         inside g = [c] \<and> holders (ready_queue g) = [] \<and> holders (waiting g) = []
       else
         scoped 0 k \<and>
         inside g = map fst (holders (ready_queue g) @ holders (waiting g)) \<and>
         length (inside g) \<le> 1))"

text \<open>
  The invariant of the Dispatcher loop for progress, when the Event was set at the start
  and no program nests guards: the Event is set exactly when no Context is inside, the
  Contexts in the queue of the Event are outside the section, and a Context has entered
  or has still to enter as often as the multiset \<open>A\<close> says.
\<close>

definition owners :: "(ctx \<times> instr list) list \<Rightarrow> (ctx \<times> instr list) list" where
  "owners q = filter (\<lambda>x. unnested True (snd x)) q"

definition queues_ok :: "guarded \<Rightarrow> bool" where
  "queues_ok g =
     (list_all (\<lambda>x. unnested False (snd x)) (waiting g) \<and>
      list_all (\<lambda>x. unnested False (snd x) \<or> unnested True (snd x)) (ready_queue g) \<and>
      (waiting g \<noteq> [] \<longrightarrow> \<not> flag g))"

definition loop_inv :: "ctx multiset \<Rightarrow> guarded \<Rightarrow> bool" where
  "loop_inv A g =
     (queues_ok g \<and>
      inside g = map fst (owners (ready_queue g)) \<and> length (owners (ready_queue g)) \<le> 1 \<and>
      flag g = (inside g = []) \<and>
      mset (entered g) + locks (ready_queue g) + locks (waiting g) = A)"

definition running_inv :: "ctx multiset \<Rightarrow> ctx \<Rightarrow> instr list \<Rightarrow> guarded \<Rightarrow> bool" where
  "running_inv A c k g =
     (queues_ok g \<and>
      (if unnested True k then
         inside g = [c] \<and> owners (ready_queue g) = [] \<and> \<not> flag g
       else
         unnested False k \<and>
         inside g = map fst (owners (ready_queue g)) \<and> length (owners (ready_queue g)) \<le> 1 \<and>
         flag g = (inside g = [])) \<and>
      mset (entered g) + locks (ready_queue g) + locks (waiting g)
        + replicate_mset (count_list k Lock) c = A)"

text \<open>
  A Context that takes and releases the lock \<open>n\<close> times, with a suspension point inside
  each guarded block.
\<close>

definition relock :: "nat \<Rightarrow> instr list" where
  "relock n = concat (replicate n [Lock, Yield, Unlock])"

section \<open>TcpConnector and TcpConnection (TcpConnector.h)\<close>

text \<open>
  TcpConnector.h declares the class: the copy constructor and the copy assignment are
  deleted, a move constructor and a move assignment are declared, and the members are
  the pointer \<open>dispatcher\<close> and the pointer \<open>context\<close> (here \<open>context_ptr\<close>). A null
  pointer is \<open>None\<close>. The bodies of the member functions, and the whole of
  TcpConnection, are in files that the sources do not contain.
\<close>

text \<open>
  Modelled from the spec: the "OS resource" that a connector or a connection holds, for
  which the sources have no declaration: the handles that are live, the history of the
  handles that were released, and the release of a handle.
\<close>

type_synonym handle = nat

record os_resources =
  live :: "handle list"
  released :: "handle list"

definition release :: "handle \<Rightarrow> os_resources \<Rightarrow> os_resources" where
  "release h os = os\<lparr>live := removeAll h (live os), released := released os @ [h]\<rparr>"

text \<open>The members of TcpConnector, as the header declares them.\<close>

record TcpConnector =
  dispatcher :: "nat option"
  context_ptr :: "handle option"

text \<open>
  Modelled from the spec: TcpConnection, missing from the sources, is an "established
  socket, same non-copyable/movable discipline", bound to one Dispatcher.
\<close>

record TcpConnection =
  connection_dispatcher :: "nat option"
  connection :: "handle option"

text \<open>
  Modelled from the spec: the body of the move constructor of TcpConnector, missing from
  the sources: "Move transfers the OS resource and Dispatcher back-reference; the
  moved-from instance becomes unbound." The result is the new object and the moved-from
  one.
\<close>

definition TcpConnector_move :: "TcpConnector \<Rightarrow> TcpConnector \<times> TcpConnector" where
  "TcpConnector_move other =
     (\<lparr>dispatcher = dispatcher other, context_ptr = context_ptr other\<rparr>,
      \<lparr>dispatcher = None, context_ptr = None\<rparr>)"

text \<open>
  Modelled from the spec: the body of the destructor of TcpConnector, missing from the
  sources: it "releases all held OS resources", and for a moved-from object it "is then
  a no-op".
\<close>

definition TcpConnector_dtor :: "TcpConnector \<Rightarrow> os_resources \<Rightarrow> os_resources" where
  "TcpConnector_dtor t os = (case context_ptr t of None \<Rightarrow> os | Some h \<Rightarrow> release h os)"

text \<open>
  Modelled from the spec: the move constructor of TcpConnection, missing from the sources,
  with the discipline of TcpConnector.
\<close>

definition TcpConnection_move :: "TcpConnection \<Rightarrow> TcpConnection \<times> TcpConnection" where
  "TcpConnection_move other =
     (\<lparr>connection_dispatcher = connection_dispatcher other, connection = connection other\<rparr>,
      \<lparr>connection_dispatcher = None, connection = None\<rparr>)"

text \<open>
  Modelled from the spec: the destructor of TcpConnection, missing from the sources, with
  the discipline of TcpConnector.
\<close>

definition TcpConnection_dtor :: "TcpConnection \<Rightarrow> os_resources \<Rightarrow> os_resources" where
  "TcpConnection_dtor t os = (case connection t of None \<Rightarrow> os | Some h \<Rightarrow> release h os)"

section \<open>Properties of the validation layer\<close>

subsection \<open>Decimal digits\<close>

lemma lt10: "(n::nat) < 10 \<Longrightarrow> n \<in> set [0, 1, 2, 3, 4, 5, 6, 7, 8, 9]"
  by simp arith

lemma of_char_digit: "n < 10 \<Longrightarrow> int (of_char (digit_char n)) - int (of_char (CHR ''0'')) = int n"
  using lt10[of n] by (auto simp: digit_char_def)

lemma digit_char_zero: "n < 10 \<Longrightarrow> (digit_char n = CHR ''0'') = (n = 0)"
  using lt10[of n] by (auto simp: digit_char_def)

lemma to_string_nonempty: "to_string n \<noteq> []"
  by (subst to_string.simps) simp

lemma length_to_string: "length (to_string n) = num_digits n"
proof (induction n rule: to_string.induct)
  case (1 n)
  show ?case
  proof (cases "n < 10")
    case True
    then show ?thesis by (simp add: to_string.simps[of n] num_digits.simps[of n])
  next
    case False
    with 1 show ?thesis by (simp add: to_string.simps[of n] num_digits.simps[of n])
  qed
qed

lemma hd_to_string: "int (of_char (to_string n ! 0)) - int (of_char (CHR ''0'')) = int (leading_digit n)"
proof (induction n rule: to_string.induct)
  case (1 n)
  show ?case
  proof (cases "n < 10")
    case True
    then show ?thesis using of_char_digit[of n] by (simp add: to_string.simps[of n] leading_digit.simps[of n])
  next
    case False
    have "to_string (n div 10) \<noteq> []" by (rule to_string_nonempty)
    then have "(to_string (n div 10) @ [digit_char (n mod 10)]) ! 0 = to_string (n div 10) ! 0"
      by (cases "to_string (n div 10)") simp_all
    with False 1 show ?thesis by (simp add: to_string.simps[of n] leading_digit.simps[of n])
  qed
qed

lemma num_digits_pos: "0 < num_digits n"
  by (subst num_digits.simps) simp

lemma leading_digit_lt10: "leading_digit n < 10"
proof (induction n rule: leading_digit.induct)
  case (1 n)
  then show ?case by (subst leading_digit.simps) simp
qed

lemma leading_le: "leading_digit n * 10 ^ (num_digits n - 1) \<le> n"
proof (induction n rule: num_digits.induct)
  case (1 n)
  show ?case
  proof (cases "n < 10")
    case True
    then show ?thesis by (simp add: num_digits.simps[of n] leading_digit.simps[of n])
  next
    case False
    obtain k where k: "num_digits (n div 10) = Suc k"
      using num_digits_pos[of "n div 10"] by (cases "num_digits (n div 10)") simp_all
    from False 1 have "leading_digit (n div 10) * 10 ^ k \<le> n div 10" by (simp add: k)
    then have "leading_digit (n div 10) * 10 ^ k * 10 \<le> (n div 10) * 10" by simp
    also have "\<dots> \<le> n" by simp
    finally show ?thesis using False by (simp add: num_digits.simps[of n] leading_digit.simps[of n] k mult.assoc)
  qed
qed

lemma times_ten_iff: "((n::nat) = x * 10) = (n div 10 = x \<and> n mod 10 = 0)"
proof
  assume "n = x * 10"
  then show "n div 10 = x \<and> n mod 10 = 0" by simp
next
  assume a: "n div 10 = x \<and> n mod 10 = 0"
  have "n = n div 10 * 10 + n mod 10" by simp
  with a show "n = x * 10" by simp
qed

lemma ugly_iff_digits:
  "(n = leading_digit n * 10 ^ (num_digits n - 1)) = list_all (\<lambda>c. c = CHR ''0'') (tl (to_string n))"
proof (induction n rule: to_string.induct)
  case (1 n)
  show ?case
  proof (cases "n < 10")
    case True
    then show ?thesis by (simp add: to_string.simps[of n] leading_digit.simps[of n] num_digits.simps[of n])
  next
    case False
    let ?m = "n div 10"
    obtain k where k: "num_digits ?m = Suc k"
      using num_digits_pos[of ?m] by (cases "num_digits ?m") simp_all
    have tl: "tl (to_string n) = tl (to_string ?m) @ [digit_char (n mod 10)]"
      using False to_string_nonempty[of ?m] by (simp add: to_string.simps[of n])
    have ih: "(?m = leading_digit ?m * 10 ^ k) = list_all (\<lambda>c. c = CHR ''0'') (tl (to_string ?m))"
      using 1 False by (simp add: k)
    have e: "leading_digit ?m * 10 ^ Suc k = leading_digit ?m * 10 ^ k * 10"
      by simp
    have step: "(n = leading_digit ?m * 10 ^ Suc k) = (?m = leading_digit ?m * 10 ^ k \<and> n mod 10 = 0)"
      by (simp only: e times_ten_iff)
    have "(n = leading_digit n * 10 ^ (num_digits n - 1)) = (n = leading_digit ?m * 10 ^ Suc k)"
      using False by (simp add: leading_digit.simps[of n] num_digits.simps[of n] k)
    also note step
    also have "(?m = leading_digit ?m * 10 ^ k \<and> n mod 10 = 0) =
               list_all (\<lambda>c. c = CHR ''0'') (tl (to_string n))"
      unfolding tl ih by (auto simp: digit_char_zero)
    finally show ?thesis .
  qed
qed

subsection \<open>The floating-point computation of validateOptimizeTarget is exact\<close>

lemma bitlen_le: "n < 2 ^ b \<Longrightarrow> bitlen n \<le> b"
proof (induction b arbitrary: n)
  case 0
  then show ?case by (simp add: bitlen.simps)
next
  case (Suc b)
  then have "n div 2 < 2 ^ b" by simp
  then have "bitlen (n div 2) \<le> b" by (rule Suc.IH)
  then show ?case by (subst bitlen.simps) simp
qed

lemma round_to_multiple_exact: "2 ^ e dvd n \<Longrightarrow> round_to_multiple n e = n"
  by (auto simp: round_to_multiple_def Let_def)

lemma round_double_exact:
  assumes "m < 2 ^ 53"
  shows "round_double (m * 2 ^ k) = m * 2 ^ k"
proof (cases "bitlen (m * 2 ^ k) \<le> 53")
  case True
  then show ?thesis by (simp add: round_double_def)
next
  case False
  have "m * 2 ^ k < 2 ^ 53 * 2 ^ k" using assms by simp
  then have "m * 2 ^ k < 2 ^ (53 + k)" by (simp add: power_add)
  then have "bitlen (m * 2 ^ k) \<le> 53 + k" by (rule bitlen_le)
  then have "bitlen (m * 2 ^ k) - 53 \<le> k" by simp
  then have "(2::nat) ^ (bitlen (m * 2 ^ k) - 53) dvd 2 ^ k" by (rule le_imp_power_dvd)
  then have "(2::nat) ^ (bitlen (m * 2 ^ k) - 53) dvd m * 2 ^ k" by (rule dvd_mult)
  with False show ?thesis by (simp add: round_double_def round_to_multiple_exact)
qed


lemma num_digits_le: "0 < k \<Longrightarrow> n < 10 ^ k \<Longrightarrow> num_digits n \<le> k"
proof (induction k arbitrary: n)
  case 0
  then show ?case by simp
next
  case (Suc k)
  show ?case
  proof (cases "n < 10")
    case True
    then show ?thesis by (simp add: num_digits.simps[of n])
  next
    case False
    with Suc.prems have "0 < k" by (cases k) simp_all
    moreover from Suc.prems have "n div 10 < 10 ^ k" by (simp add: less_mult_imp_div_less)
    ultimately have "num_digits (n div 10) \<le> k" by (rule Suc.IH)
    with False show ?thesis by (simp add: num_digits.simps[of n])
  qed
qed

lemma round_double_digit_power:
  assumes "d < 10" and "k \<le> 19"
  shows "round_double (d * 10 ^ k) = d * 10 ^ k"
proof -
  have "(5::nat) ^ k \<le> 5 ^ 19" using assms(2) by (intro power_increasing) simp_all
  then have "d * 5 ^ k \<le> 9 * 5 ^ 19" using assms(1) by (intro mult_mono) simp_all
  also have "\<dots> < (2::nat) ^ 53" by simp
  finally have "round_double ((d * 5 ^ k) * 2 ^ k) = (d * 5 ^ k) * 2 ^ k" by (rule round_double_exact)
  moreover have "(10::nat) ^ k = 5 ^ k * 2 ^ k" by (simp flip: power_mult_distrib)
  ultimately show ?thesis by (simp add: mult.assoc)
qed

lemma round_double_int_nat: "round_double_int (int n) = int (round_double n)"
  by (simp add: round_double_int_def)

lemma pow_double_10: "k \<le> 19 \<Longrightarrow> pow_double 10 k = int (10 ^ k)"
  unfolding pow_double_def round_double_int_nat
  using round_double_digit_power[of 1 k] by simp

lemma mul_double_digit: "d < 10 \<Longrightarrow> k \<le> 19 \<Longrightarrow> mul_double (int d) (int (10 ^ k)) = int (d * 10 ^ k)"
  unfolding mul_double_def of_nat_mult[symmetric] round_double_int_nat
  by (simp only: round_double_digit_power)

lemma valid_target_value:
  fixes target :: uint64
  defines "n \<equiv> unat target"
  shows "mul_double (int (of_char (to_string n ! 0)) - int (of_char (CHR ''0'')))
           (pow_double 10 (length (to_string n) - 1)) = int (leading_digit n * 10 ^ (num_digits n - 1))"
proof -
  have "n < 2 ^ 64" unfolding n_def using unsigned_less[of target] by simp
  also have "\<dots> < (10::nat) ^ 20" by simp
  finally have "num_digits n \<le> 20" by (intro num_digits_le) simp_all
  then have k: "num_digits n - 1 \<le> 19" by simp
  show ?thesis
    unfolding hd_to_string length_to_string pow_double_10[OF k]
    by (rule mul_double_digit[OF leading_digit_lt10 k])
qed

lemma validateOptimizeTarget_Some:
  "validateOptimizeTarget (Some t) =
     Some (of_code (if unat t = leading_digit (unat t) * 10 ^ (num_digits (unat t) - 1)
                    then SUCCESS else AMOUNT_UGLY))"
proof -
  let ?v = "leading_digit (unat t) * 10 ^ (num_digits (unat t) - 1)"
  have le: "?v \<le> unat t" by (rule leading_le)
  have "unat t < 2 ^ 64" using unsigned_less[of t] by simp
  with le have lt: "?v < 2 ^ 64" by simp
  then have "int ?v < int (2 ^ 64)" by (simp only: of_nat_less_iff)
  then have "int ?v < 2 ^ 64" by simp
  then have conv: "double_to_uint64 (int ?v) = Some (of_nat ?v)"
    unfolding double_to_uint64_def by (simp del: of_nat_mult of_nat_power)
  have "unat (of_nat ?v :: uint64) = ?v" unfolding unat_of_nat using lt by simp
  then have eq: "(t = of_nat ?v) = (unat t = ?v)" by (simp add: word_unat_eq_iff)
  show ?thesis
    unfolding validateOptimizeTarget_def option.case Let_def valid_target_value conv eq
    by simp
qed

text \<open>
  Claim C10. validateOptimizeTarget returns SUCCESS for an absent target. For a present
  target \<open>t\<close> it returns SUCCESS exactly when \<open>t\<close> is its leading decimal digit times ten
  to the number of its decimal digits minus one, and AMOUNT_UGLY otherwise; that condition
  says that every digit of \<open>std::to_string(t)\<close> after the first is \<open>0\<close>. The product is
  computed in \<open>double\<close>: for every 64-bit target it is exact and within the range of
  \<open>uint64_t\<close>, so the conversion is defined (the result is never \<open>None\<close>). 20000 is
  accepted and 23456 is rejected.
\<close>

theorem validateOptimizeTarget_spec:
  "validateOptimizeTarget None = Some (of_code SUCCESS) \<and>
   (\<forall>t. validateOptimizeTarget (Some t) =
      Some (of_code (if unat t = leading_digit (unat t) * 10 ^ (num_digits (unat t) - 1)
                     then SUCCESS else AMOUNT_UGLY))) \<and>
   (\<forall>t. (unat t = leading_digit (unat t) * 10 ^ (num_digits (unat t) - 1)) =
      list_all (\<lambda>c. c = CHR ''0'') (tl (to_string (unat (t :: uint64))))) \<and>
   validateOptimizeTarget (Some 20000) = Some (of_code SUCCESS) \<and>
   validateOptimizeTarget (Some 23456) = Some (of_code AMOUNT_UGLY)"
proof (intro conjI allI)
  show "validateOptimizeTarget None = Some (of_code SUCCESS)"
    by (simp add: validateOptimizeTarget_def)
  have "leading_digit 20000 = 2" "num_digits 20000 = 5" "leading_digit 23456 = 2" "num_digits 23456 = 5"
    by (simp_all add: leading_digit.simps num_digits.simps)
  then show "validateOptimizeTarget (Some 20000) = Some (of_code SUCCESS)"
    and "validateOptimizeTarget (Some 23456) = Some (of_code AMOUNT_UGLY)"
    by (simp_all add: validateOptimizeTarget_Some)
qed (rule validateOptimizeTarget_Some ugly_iff_digits)+

text \<open>
  The claim at 500, at 501 and at 0, and the function evaluated on the largest power of
  ten below \<open>2 ^ 64\<close>, where the product has more than 53 bits.
\<close>

theorem validateOptimizeTarget_spec_witness:
  "validateOptimizeTarget (Some 500) = Some (of_code SUCCESS) \<and>
   validateOptimizeTarget (Some 501) = Some (of_code AMOUNT_UGLY) \<and>
   validateOptimizeTarget (Some 0) = Some (of_code SUCCESS) \<and>
   validateOptimizeTarget (Some 10000000000000000000) = Some (of_code SUCCESS)"
proof -
  have d: "leading_digit 500 = 5" "num_digits 500 = 3" "leading_digit 501 = 5" "num_digits 501 = 3"
    "leading_digit 0 = 0" "num_digits 0 = 1"
    by (simp_all add: leading_digit.simps num_digits.simps)
  have e: "validateOptimizeTarget (Some 10000000000000000000) = Some (of_code SUCCESS)"
    by (simp add: validateOptimizeTarget_def to_string.simps digit_char_def pow_double_def
          mul_double_def round_double_int_def round_double_def bitlen.simps double_to_uint64_def
          round_to_multiple_def Let_def)
  note t = validateOptimizeTarget_spec[THEN conjunct2, THEN conjunct1, rule_format]
  from t[of 500] t[of 501] t[of 0] d e show ?thesis by simp
qed

subsection \<open>validateHash and validatePaymentID\<close>

lemma alphanumeric_bracket:
  "alphanumeric c \<Longrightarrow>
     bracket_match [(CHR ''a'', CHR ''z''), (CHR ''A'', CHR ''Z''), (CHR ''0'', CHR ''9'')] c"
  by (auto simp: alphanumeric_def in_range_def)

lemma match_repeat_iff: "match_repeat rs n s = (length s = n \<and> list_all (bracket_match rs) s)"
proof (induction rs n s rule: match_repeat.induct)
  case (1 rs s)
  then show ?case by auto
next
  case (2 rs n)
  then show ?case by simp
next
  case (3 rs n c cs)
  then show ?case by auto
qed

lemma regex_match_hexRegex:
  assumes "length s = 64" and "list_all alphanumeric s"
  shows "regex_match s hexRegex"
proof -
  have "list_all (bracket_match [(CHR ''a'', CHR ''z''), (CHR ''A'', CHR ''Z''), (CHR ''0'', CHR ''9'')]) s"
    using assms(2) unfolding list_all_iff by (blast intro: alphanumeric_bracket)
  with assms(1) show ?thesis by (simp add: hexRegex_def match_repeat_iff)
qed

text \<open>
  Claim C9. validateHash and validatePaymentID accept every string of 64 characters that
  are letters or digits, hexadecimal or not. A string of another length gets the
  wrong-length error of the function, except the empty payment ID, which is accepted.
\<close>

theorem validateHash_validatePaymentID_alphanumeric:
  "(\<forall>s. length s = 64 \<and> list_all alphanumeric s \<longrightarrow>
        validateHash s = of_code SUCCESS \<and> validatePaymentID s = of_code SUCCESS) \<and>
   (\<forall>s. length s \<noteq> 64 \<longrightarrow> validateHash s = of_code HASH_WRONG_LENGTH) \<and>
   (\<forall>s. s \<noteq> [] \<and> length s \<noteq> 64 \<longrightarrow> validatePaymentID s = of_code PAYMENT_ID_WRONG_LENGTH) \<and>
   validatePaymentID [] = of_code SUCCESS"
proof (intro conjI allI impI)
  fix s
  assume a: "length s = 64 \<and> list_all alphanumeric s"
  then have m: "regex_match s hexRegex" by (simp add: regex_match_hexRegex)
  from a have "s \<noteq> []" by auto
  with a m show "validateHash s = of_code SUCCESS" "validatePaymentID s = of_code SUCCESS"
    by (simp_all add: validateHash_def validatePaymentID_def)
next
  fix s :: string
  assume "length s \<noteq> 64"
  then show "validateHash s = of_code HASH_WRONG_LENGTH" by (simp add: validateHash_def)
next
  fix s :: string
  assume "s \<noteq> [] \<and> length s \<noteq> 64"
  then show "validatePaymentID s = of_code PAYMENT_ID_WRONG_LENGTH"
    by (simp add: validatePaymentID_def)
next
  show "validatePaymentID [] = of_code SUCCESS" by (simp add: validatePaymentID_def)
qed

text \<open>
  The theorem at a string of 63 zeros and the letter \<open>z\<close>, which is not a hexadecimal
  digit, and at a string of three characters.
\<close>

theorem validateHash_validatePaymentID_alphanumeric_witness:
  "validateHash (replicate 63 (CHR ''0'') @ ''z'') = of_code SUCCESS \<and>
   validatePaymentID (replicate 63 (CHR ''0'') @ ''z'') = of_code SUCCESS \<and>
   validateHash ''abc'' = of_code HASH_WRONG_LENGTH \<and>
   validatePaymentID ''abc'' = of_code PAYMENT_ID_WRONG_LENGTH"
proof -
  let ?s = "replicate 63 (CHR ''0'') @ ''z''"
  have h1: "length ?s = 64 \<and> list_all alphanumeric ?s"
    by (simp add: alphanumeric_def list_all_iff)
  have h2: "length ''abc'' \<noteq> 64" by simp
  have h3: "''abc'' \<noteq> [] \<and> length ''abc'' \<noteq> 64" by simp
  note t = validateHash_validatePaymentID_alphanumeric
  from t[THEN conjunct1, rule_format, OF h1]
       t[THEN conjunct2, THEN conjunct1, rule_format, OF h2]
       t[THEN conjunct2, THEN conjunct2, THEN conjunct1, rule_format, OF h3]
  show ?thesis by blast
qed

subsection \<open>validateAmount\<close>

text \<open>
  Claim C8. validateAmount throws exactly when the fee names no type: neither a fee per
  byte, nor a fixed fee, nor the minimum fee. With a fee type it returns an Error: a fee
  per byte under the minimum is \<^verbatim>\<open>FEE_TOO_SMALL\<close>, then an overflowing sum of the amounts is
  \<^verbatim>\<open>WILL_OVERFLOW\<close>, then a total above the available balance is \<^verbatim>\<open>NOT_ENOUGH_BALANCE\<close>, and
  otherwise SUCCESS.
\<close>

theorem validateAmount_fail_fast:
  "((\<exists>x. validateAmount cfg destinations fee subWalletsToTakeFrom subWallets currentHeight = Inl x)
      = (\<not> isFeePerByte fee \<and> \<not> isFixedFee fee \<and> \<not> isMinimumFee fee)) \<and>
   (isFeePerByte fee \<or> isFixedFee fee \<or> isMinimumFee fee \<longrightarrow>
      validateAmount cfg destinations fee subWalletsToTakeFrom subWallets currentHeight =
        Inr (of_code
          (if isFeePerByte fee \<and> feePerByte fee < MINIMUM_FEE_PER_BYTE_V1 cfg then FEE_TOO_SMALL
           else if sumWillOverflow cfg
                     ((if isFixedFee fee then [fixedFee fee] else []) @ map snd destinations)
             then WILL_OVERFLOW
           else if getTransactionSum cfg destinations + (if isFixedFee fee then fixedFee fee else 0)
                     > fst (getBalance subWallets (addressesToSpendKeys cfg subWalletsToTakeFrom)
                              (subWalletsToTakeFrom = []) currentHeight)
             then NOT_ENOUGH_BALANCE
           else SUCCESS)))"
  by (auto simp: validateAmount_def Let_def split: prod.splits)

text \<open>
  The theorem on the concrete configuration: no fee type, a fee per byte under the
  minimum, amounts whose sum passes \<open>2 ^ 64\<close>, an amount above the balance, and a
  transaction that passes.
\<close>

theorem validateAmount_fail_fast_witness:
  "(\<exists>x. validateAmount example_config [(''TRabc'', 10)] fee_unspecified [] example_wallet 100 = Inl x) \<and>
   validateAmount example_config [(''TRabc'', 10)] fee_unspecified [] example_wallet 100
     = Inl (runtime_error ''Programmer error: fee type not specified'') \<and>
   validateAmount example_config [(''TRabc'', 10)] (fee_per_byte 1) [] example_wallet 100
     = Inr (of_code FEE_TOO_SMALL) \<and>
   validateAmount example_config [(''TRabc'', 10), (''TRxyz'', 18446744073709551615)] (fee_fixed 1) [] example_wallet 100
     = Inr (of_code WILL_OVERFLOW) \<and>
   validateAmount example_config [(''TRabc'', 1000)] (fee_fixed 1) [] example_wallet 100
     = Inr (of_code NOT_ENOUGH_BALANCE) \<and>
   validateAmount example_config [(''TRabc'', 10)] (fee_fixed 1) [] example_wallet 100
     = Inr (of_code SUCCESS)"
proof -
  note t = validateAmount_fail_fast
  have a: "\<not> isFeePerByte fee_unspecified \<and> \<not> isFixedFee fee_unspecified \<and> \<not> isMinimumFee fee_unspecified"
    by (simp add: example_config_def example_wallet_def fee_unspecified_def fee_fixed_def
        fee_per_byte_def)
  have 0: "\<exists>x. validateAmount example_config [(''TRabc'', 10)] fee_unspecified [] example_wallet 100 = Inl x"
    using t[THEN conjunct1, of example_config "[(''TRabc'', 10)]" fee_unspecified "[]" example_wallet 100] a
    by blast
  have 1: "validateAmount example_config [(''TRabc'', 10)] fee_unspecified [] example_wallet 100
     = Inl (runtime_error ''Programmer error: fee type not specified'')"
    by (simp add: validateAmount_def example_config_def example_wallet_def fee_unspecified_def fee_fixed_def
        fee_per_byte_def)
  have b: "isFeePerByte (fee_per_byte 1) \<or> isFixedFee (fee_per_byte 1) \<or> isMinimumFee (fee_per_byte 1)"
    by (simp add: example_config_def example_wallet_def fee_unspecified_def fee_fixed_def
        fee_per_byte_def)
  have c: "isFeePerByte (fee_fixed 1) \<or> isFixedFee (fee_fixed 1) \<or> isMinimumFee (fee_fixed 1)"
    by (simp add: example_config_def example_wallet_def fee_unspecified_def fee_fixed_def
        fee_per_byte_def)
  from t[THEN conjunct2, rule_format, OF b, of example_config "[(''TRabc'', 10)]" "[]" example_wallet 100]
  have 2: "validateAmount example_config [(''TRabc'', 10)] (fee_per_byte 1) [] example_wallet 100
     = Inr (of_code FEE_TOO_SMALL)"
    by (simp add: example_config_def example_wallet_def fee_unspecified_def fee_fixed_def
        fee_per_byte_def)
  from t[THEN conjunct2, rule_format, OF c, of example_config "[(''TRabc'', 10), (''TRxyz'', 18446744073709551615)]" "[]" example_wallet 100]
  have 3: "validateAmount example_config [(''TRabc'', 10), (''TRxyz'', 18446744073709551615)] (fee_fixed 1) [] example_wallet 100
     = Inr (of_code WILL_OVERFLOW)"
    by (simp add: example_config_def example_wallet_def fee_unspecified_def fee_fixed_def
        fee_per_byte_def)
  from t[THEN conjunct2, rule_format, OF c, of example_config "[(''TRabc'', 1000)]" "[]" example_wallet 100]
  have 4: "validateAmount example_config [(''TRabc'', 1000)] (fee_fixed 1) [] example_wallet 100
     = Inr (of_code NOT_ENOUGH_BALANCE)"
    by (simp add: example_config_def example_wallet_def fee_unspecified_def fee_fixed_def
        fee_per_byte_def)
  from t[THEN conjunct2, rule_format, OF c, of example_config "[(''TRabc'', 10)]" "[]" example_wallet 100]
  have 5: "validateAmount example_config [(''TRabc'', 10)] (fee_fixed 1) [] example_wallet 100
     = Inr (of_code SUCCESS)"
    by (simp add: example_config_def example_wallet_def fee_unspecified_def fee_fixed_def
        fee_per_byte_def)
  from 0 1 2 3 4 5 show ?thesis by blast
qed

subsection \<open>validateTransaction\<close>

lemma validateTransaction_first_failing:
  "validateTransaction cfg destinations mixin fee paymentID subWalletsToTakeFrom changeAddress
       subWallets currentHeight =
     first_failing (transaction_checks cfg destinations mixin fee paymentID subWalletsToTakeFrom
       changeAddress subWallets currentHeight)"
  by (simp add: validateTransaction_def transaction_checks_def is_success_def Let_def
           split: sum.splits)

lemma first_failing_success: "is_success (first_failing cs) = list_all is_success cs"
  by (induction cs) (auto simp: is_success_def of_code_def)

lemma first_failing_split:
  "list_all is_success pre \<Longrightarrow> \<not> is_success c \<Longrightarrow> first_failing (pre @ c # post) = c"
  by (induction pre) auto


text \<open>
  Claim C7, as amended. validateTransaction returns SUCCESS if and only if each of its seven
  checks (destinations, integrated addresses, source subwallets, amount, mixin, payment
  ID, change address) returns SUCCESS. Otherwise its outcome is the outcome of the first
  check, in that order, that does not return SUCCESS: the Error that check returns, or
  the exception that check throws, which leaves validateTransaction as well.
\<close>

theorem validateTransaction_first_failing_check:
  fixes cfg :: "('key, 'addr, 'fee :: ord) Config"
    and destinations mixin fee paymentID subWalletsToTakeFrom changeAddress subWallets currentHeight
  defines "checks \<equiv> transaction_checks cfg destinations mixin fee paymentID subWalletsToTakeFrom
                       changeAddress subWallets currentHeight"
    and "result \<equiv> validateTransaction cfg destinations mixin fee paymentID subWalletsToTakeFrom
                       changeAddress subWallets currentHeight"
  shows "(is_success result = list_all is_success checks) \<and>
         (list_all is_success checks \<longrightarrow> result = Inr (of_code SUCCESS)) \<and>
         (\<forall>pre c post. checks = pre @ c # post \<and> list_all is_success pre \<and> \<not> is_success c
            \<longrightarrow> result = c)"
proof -
  have r: "result = first_failing checks"
    unfolding result_def checks_def by (rule validateTransaction_first_failing)
  have "list_all is_success cs \<Longrightarrow> first_failing cs = Inr (of_code SUCCESS)" for cs
    by (induction cs) auto
  then show ?thesis
    unfolding r by (auto simp: first_failing_success first_failing_split)
qed

text \<open>
  Claim C7 as stated fails where a check throws. With no fee type, and destinations and
  source subwallets that pass, validateAmount throws and validateTransaction returns no
  Error at all.
\<close>

theorem validateTransaction_throws_counterexample:
  "\<not> list_all is_success
        (transaction_checks example_config [(''TRabc'', 10)] 3 fee_unspecified [] [] ''TRabc''
           example_wallet 100) \<and>
   validateTransaction example_config [(''TRabc'', 10)] 3 fee_unspecified [] [] ''TRabc''
       example_wallet 100
     = Inl (runtime_error ''Programmer error: fee type not specified'') \<and>
   (\<nexists>e. validateTransaction example_config [(''TRabc'', 10)] 3 fee_unspecified [] [] ''TRabc''
       example_wallet 100 = Inr e)"
  by (simp add: validateTransaction_def transaction_checks_def validateDestinations_def validateAddress_step_def validateOurAddresses_def
        validateAmount_def validateMixin_def validatePaymentID_def of_code_def is_success_def Let_def
        example_config_def example_wallet_def fee_unspecified_def fee_fixed_def)

text \<open>
  The amended claim on the concrete configuration: a mixin above the maximum, which is the
  fifth check, after four that pass; and a transaction that passes every check.
\<close>

theorem validateTransaction_first_failing_check_witness:
  "validateTransaction example_config [(''TRabc'', 10)] 9 (fee_fixed 1) [] [] ''TRabc''
       example_wallet 100
     = Inr (Error MIXIN_TOO_BIG
         ''The mixin value given (9) is greater than the maximum mixin allowed (7)'') \<and>
   validateTransaction example_config [(''TRabc'', 10)] 3 (fee_fixed 1) [] [] ''TRabc''
       example_wallet 100
     = Inr (of_code SUCCESS)"
proof -
  let ?cs = "transaction_checks example_config [(''TRabc'', 10)] 9 (fee_fixed 1) [] [] ''TRabc''
               example_wallet 100"
  let ?pre = "[Inr (of_code SUCCESS), Inr (of_code SUCCESS), Inr (of_code SUCCESS), Inr (of_code SUCCESS)]"
  let ?c = "Inr (Error MIXIN_TOO_BIG
              ''The mixin value given (9) is greater than the maximum mixin allowed (7)'') :: exn + Error"
  let ?post = "[Inr (of_code SUCCESS), Inr (of_code SUCCESS)] :: (exn + Error) list"
  have h: "?cs = ?pre @ ?c # ?post \<and> list_all is_success ?pre \<and> \<not> is_success ?c"
    by (simp add: transaction_checks_def validateDestinations_def validateAddress_step_def validateOurAddresses_def
        validateAmount_def validateMixin_def validatePaymentID_def of_code_def is_success_def Let_def
        example_config_def example_wallet_def fee_unspecified_def fee_fixed_def to_string.simps digit_char_def)
  have g: "list_all is_success
             (transaction_checks example_config [(''TRabc'', 10)] 3 (fee_fixed 1) [] [] ''TRabc''
                example_wallet 100)"
    by (simp add: transaction_checks_def validateDestinations_def validateAddress_step_def validateOurAddresses_def
        validateAmount_def validateMixin_def validatePaymentID_def of_code_def is_success_def Let_def
        example_config_def example_wallet_def fee_unspecified_def fee_fixed_def)
  note t = validateTransaction_first_failing_check
  from t[THEN conjunct2, THEN conjunct2, rule_format, OF h]
       t[THEN conjunct2, THEN conjunct1, rule_format, OF g]
  show ?thesis by blast
qed

section \<open>Properties of EventLock\<close>

lemma ctor_returns_if:
  "after_waits event n w = Some w0 \<Longrightarrow> ev_get event w0 \<Longrightarrow>
     EventLock_ctor event w calls = Some (None, ev_clear event w0, calls @ acquire_calls n)"
proof (induction n arbitrary: w calls)
  case 0
  then show ?case by (subst EventLock_ctor.simps) (simp add: acquire_calls_def)
next
  case (Suc n)
  from Suc.prems(1) have g: "\<not> ev_get event w"
    by (auto split: if_splits)
  from Suc.prems(1) g obtain w' where w': "ev_wait event w = (None, w')" "after_waits event n w' = Some w0"
    by (auto split: prod.splits option.splits)
  have "EventLock_ctor event w' (calls @ [Call_get False, Call_wait])
          = Some (None, ev_clear event w0, (calls @ [Call_get False, Call_wait]) @ acquire_calls n)"
    using w'(2) Suc.prems(2) by (rule Suc.IH)
  then show ?case
    using g w'(1) by (subst EventLock_ctor.simps) (simp add: acquire_calls_def)
qed

lemma ctor_returns_only_if:
  assumes "EventLock_ctor event w calls = Some r"
  shows "fst r = None \<longrightarrow>
     (\<exists>n w0. after_waits event n w = Some w0 \<and> ev_get event w0 \<and>
            r = (None, ev_clear event w0, calls @ acquire_calls n))"
proof (rule EventLock_ctor.raw_induct[where P = "\<lambda>event w calls r. fst r = None \<longrightarrow>
     (\<exists>n w0. after_waits event n w = Some w0 \<and> ev_get event w0 \<and>
            r = (None, ev_clear event w0, calls @ acquire_calls n))"])
  show "EventLock_ctor event w calls = Some r" by fact
next
  fix f :: "'a Event \<Rightarrow> 'a \<Rightarrow> event_call list \<Rightarrow> (exn option \<times> 'a \<times> event_call list) option"
  fix event w calls r
  assume ih: "\<And>event w calls r. f event w calls = Some r \<Longrightarrow> fst r = None \<longrightarrow>
     (\<exists>n w0. after_waits event n w = Some w0 \<and> ev_get event w0 \<and>
            r = (None, ev_clear event w0, calls @ acquire_calls n))"
  assume body: "(if \<not> ev_get event w then
        (case ev_wait event w of
           (Some x, w') \<Rightarrow> Some (Some x, w', calls @ [Call_get False, Call_wait])
         | (None, w') \<Rightarrow> f event w' (calls @ [Call_get False, Call_wait]))
      else Some (None, ev_clear event w, calls @ [Call_get True, Call_clear])) = Some r"
  show "fst r = None \<longrightarrow>
     (\<exists>n w0. after_waits event n w = Some w0 \<and> ev_get event w0 \<and>
            r = (None, ev_clear event w0, calls @ acquire_calls n))"
  proof (cases "ev_get event w")
    case True
    with body have "r = (None, ev_clear event w, calls @ acquire_calls 0)"
      by (simp add: acquire_calls_def)
    moreover have "after_waits event 0 w = Some w" by simp
    ultimately show ?thesis using True by blast
  next
    case False
    obtain x w' where xw: "ev_wait event w = (x, w')" by (cases "ev_wait event w")
    show ?thesis
    proof (cases x)
      case None
      with body False xw have "f event w' (calls @ [Call_get False, Call_wait]) = Some r" by simp
      from ih[OF this] have "fst r = None \<longrightarrow>
        (\<exists>n w0. after_waits event n w' = Some w0 \<and> ev_get event w0 \<and>
           r = (None, ev_clear event w0, (calls @ [Call_get False, Call_wait]) @ acquire_calls n))" .
      moreover have "after_waits event (Suc n) w = after_waits event n w'" for n
        using False xw None by simp
      moreover have "(calls @ [Call_get False, Call_wait]) @ acquire_calls n = calls @ acquire_calls (Suc n)" for n
        by (simp add: acquire_calls_def)
      ultimately show ?thesis by metis
    next
      case (Some e)
      with body False xw have "fst r \<noteq> None" by auto
      then show ?thesis by blast
    qed
  qed
qed

text \<open>
  Claim C1. The constructor of EventLock returns exactly when, after some number \<open>n\<close> of
  rounds in which \<open>get()\<close> was false and \<open>wait()\<close> was called and returned, \<open>get()\<close>
  is true. Its calls are then \<open>n\<close> times \<open>get()\<close> (false) and \<open>wait()\<close>, followed by
  \<open>get()\<close> (true) and one \<open>clear()\<close>, and the state it returns with is the state in which
  the Event was seen true, cleared.
\<close>

theorem EventLock_ctor_acquires:
  "((EventLock_ctor event w calls = Some (None, w', calls')) =
      (\<exists>n w0. after_waits event n w = Some w0 \<and> ev_get event w0 \<and>
         w' = ev_clear event w0 \<and> calls' = calls @ acquire_calls n)) \<and>
   (\<forall>n. length (filter (\<lambda>c. c = Call_clear) (acquire_calls n)) = 1 \<and>
        length (filter (\<lambda>c. c = Call_wait) (acquire_calls n)) = n \<and>
        drop (2 * n) (acquire_calls n) = [Call_get True, Call_clear])"
proof (intro conjI allI)
  show "(EventLock_ctor event w calls = Some (None, w', calls')) =
      (\<exists>n w0. after_waits event n w = Some w0 \<and> ev_get event w0 \<and>
         w' = ev_clear event w0 \<and> calls' = calls @ acquire_calls n)"
  proof
    assume "EventLock_ctor event w calls = Some (None, w', calls')"
    from ctor_returns_only_if[OF this]
    show "\<exists>n w0. after_waits event n w = Some w0 \<and> ev_get event w0 \<and>
          w' = ev_clear event w0 \<and> calls' = calls @ acquire_calls n" by simp
  next
    assume "\<exists>n w0. after_waits event n w = Some w0 \<and> ev_get event w0 \<and>
          w' = ev_clear event w0 \<and> calls' = calls @ acquire_calls n"
    then show "EventLock_ctor event w calls = Some (None, w', calls')"
      by (auto simp: ctor_returns_if)
  qed
next
  fix n
  show "length (filter (\<lambda>c. c = Call_clear) (acquire_calls n)) = 1"
    by (induction n) (simp_all add: acquire_calls_def)
  show "length (filter (\<lambda>c. c = Call_wait) (acquire_calls n)) = n"
    by (induction n) (simp_all add: acquire_calls_def)
  show "drop (2 * n) (acquire_calls n) = [Call_get True, Call_clear]"
    by (induction n) (simp_all add: acquire_calls_def)
qed

text \<open>
  The claim on the countdown Event, which a waiting Context sees set after two rounds.
\<close>

theorem EventLock_ctor_acquires_witness:
  "EventLock_ctor countdown_event (False, 2) [] =
     Some (None, (False, 0),
       [Call_get False, Call_wait, Call_get False, Call_wait, Call_get True, Call_clear])"
proof -
  have "after_waits countdown_event 2 (False, 2) = Some (True, 0) \<and>
        ev_get countdown_event (True, 0) \<and>
        (False, 0) = ev_clear countdown_event (True, 0) \<and>
        [Call_get False, Call_wait, Call_get False, Call_wait, Call_get True, Call_clear]
          = [] @ acquire_calls 2"
    by (simp add: countdown_event_def acquire_calls_def numeral_2_eq_2)
  then have "\<exists>n w0. after_waits countdown_event n (False, 2) = Some w0 \<and>
        ev_get countdown_event w0 \<and> (False, 0) = ev_clear countdown_event w0 \<and>
        [Call_get False, Call_wait, Call_get False, Call_wait, Call_get True, Call_clear]
          = [] @ acquire_calls n"
    by blast
  then show ?thesis
    by (rule EventLock_ctor_acquires[THEN conjunct1, THEN iffD2])
qed

text \<open>
  Claim C2. Once the guard is constructed, the block ends with \<open>set()\<close> however its body
  leaves it: by reaching the end, by a \<open>return\<close>, or by an exception. The call of
  \<open>set()\<close> is the last call and acts on the state the body left; so for an Event whose
  \<open>set()\<close> makes \<open>get()\<close> true, the block is never left with the Event cleared.
\<close>

theorem EventLock_release_on_every_exit:
  assumes "EventLock_ctor event w calls = Some (None, w1, calls1)"
  shows "guarded_scope event body w calls
           = Some (fst (body w1), ev_set event (snd (body w1)), calls1 @ [Call_set]) \<and>
         ((\<forall>u. ev_get event (ev_set event u)) \<longrightarrow>
            (\<exists>exit w' calls'. guarded_scope event body w calls = Some (exit, w', calls') \<and>
               ev_get event w' \<and> last calls' = Call_set))"
  using assms by (simp add: guarded_scope_def EventLock_dtor_def split: prod.splits)

text \<open>
  The claim on the countdown Event, for a body that throws, a body that returns early and
  a body that reaches its end.
\<close>

theorem EventLock_release_on_every_exit_witness:
  "guarded_scope countdown_event (\<lambda>w. (Throws (runtime_error ''failed'') :: nat scope_exit, w))
       (False, 1) []
     = Some (Throws (runtime_error ''failed''), (True, 0),
         [Call_get False, Call_wait, Call_get True, Call_clear, Call_set]) \<and>
   guarded_scope countdown_event (\<lambda>w. (Returns (7 :: nat), w)) (False, 1) []
     = Some (Returns 7, (True, 0),
         [Call_get False, Call_wait, Call_get True, Call_clear, Call_set]) \<and>
   guarded_scope countdown_event (\<lambda>w. (Reaches_end :: nat scope_exit, w)) (True, 0) []
     = Some (Reaches_end, (True, 0), [Call_get True, Call_clear, Call_set])"
proof -
  have a: "EventLock_ctor countdown_event (False, 1) []
             = Some (None, (False, 0), [Call_get False, Call_wait, Call_get True, Call_clear])"
    by (simp add: EventLock_ctor.simps countdown_event_def)
  have b: "EventLock_ctor countdown_event (True, 0) []
             = Some (None, (False, 0), [Call_get True, Call_clear])"
    by (simp add: EventLock_ctor.simps countdown_event_def)
  note t = EventLock_release_on_every_exit
  from t[OF a, THEN conjunct1, of "\<lambda>w. (Throws (runtime_error ''failed'') :: nat scope_exit, w)"]
       t[OF a, THEN conjunct1, of "\<lambda>w. (Returns (7 :: nat), w)"]
       t[OF b, THEN conjunct1, of "\<lambda>w. (Reaches_end :: nat scope_exit, w)"]
  show ?thesis by (simp add: countdown_event_def)
qed


section \<open>Properties of Event and of EventLock under the Dispatcher\<close>

subsection \<open>Waiting and resuming\<close>

lemma apply_op_other:
  "\<not> wait_by c op \<Longrightarrow> op \<noteq> Op_set \<Longrightarrow>
     blocked c (apply_op op r) = blocked c r \<and> resume_log (apply_op op r) = resume_log r \<and>
     ready_queue (apply_op op r) = ready_queue r"
  by (cases op) (auto simp: blocked_def Event_wait_def Event_clear_def)

lemma run_ops_no_set:
  "list_all (\<lambda>op. \<not> wait_by c op \<and> op \<noteq> Op_set) ops \<Longrightarrow>
     blocked c (run_ops ops r) = blocked c r \<and> resume_log (run_ops ops r) = resume_log r \<and>
     ready_queue (run_ops ops r) = ready_queue r"
proof (induction ops arbitrary: r)
  case Nil
  then show ?case by (simp add: run_ops_def)
next
  case (Cons op ops)
  from Cons.prems have a: "\<not> wait_by c op" "op \<noteq> Op_set"
    and b: "list_all (\<lambda>op. \<not> wait_by c op \<and> op \<noteq> Op_set) ops" by simp_all
  have "run_ops (op # ops) r = run_ops ops (apply_op op r)" by (simp add: run_ops_def)
  with Cons.IH[OF b, of "apply_op op r"] apply_op_other[OF a, of r] show ?case by simp
qed

lemma apply_op_not_blocked:
  "\<not> wait_by c op \<Longrightarrow> blocked c r = 0 \<Longrightarrow>
     blocked c (apply_op op r) = 0 \<and> resumes c (apply_op op r) = resumes c r \<and>
     made_ready c (apply_op op r) = made_ready c r"
  by (cases op)
     (auto simp: blocked_def resumes_def made_ready_def Event_wait_def Event_clear_def
                 Event_set_def)

lemma run_ops_not_blocked:
  "list_all (\<lambda>op. \<not> wait_by c op) ops \<Longrightarrow> blocked c r = 0 \<Longrightarrow>
     blocked c (run_ops ops r) = 0 \<and> resumes c (run_ops ops r) = resumes c r \<and>
     made_ready c (run_ops ops r) = made_ready c r"
proof (induction ops arbitrary: r)
  case Nil
  then show ?case by (simp add: run_ops_def)
next
  case (Cons op ops)
  from Cons.prems have a: "\<not> wait_by c op" and b: "list_all (\<lambda>op. \<not> wait_by c op) ops"
    by simp_all
  have e: "run_ops (op # ops) r = run_ops ops (apply_op op r)" by (simp add: run_ops_def)
  from apply_op_not_blocked[OF a Cons.prems(2)]
  have z: "blocked c (apply_op op r) = 0" and r: "resumes c (apply_op op r) = resumes c r"
    and q: "made_ready c (apply_op op r) = made_ready c r"
    by simp_all
  from Cons.IH[OF b z] r q show ?case by (simp add: e)
qed

text \<open>
  Claim C4. A Context \<open>c\<close> that is running (so not in the queue of the Event) calls
  \<open>wait()\<close>. If \<open>get()\<close> is true the call returns at once and changes nothing. If
  \<open>get()\<close> is false the Context is suspended; whatever the other Contexts do to the
  Event before the next \<open>set()\<close> does not resume it; the next \<open>set()\<close> resumes it
  once, by one entry in the ready queue; and after that no operation resumes it again
  as long as it does not call \<open>wait()\<close> anew.
\<close>

theorem Event_wait_resumed_exactly_once:
  assumes running: "blocked c r = 0"
    and before: "list_all (\<lambda>op. \<not> wait_by c op \<and> op \<noteq> Op_set) ops1"
    and after: "list_all (\<lambda>op. \<not> wait_by c op) ops2"
  shows "(Event_get r \<longrightarrow> Event_wait c k r = (True, r)) \<and>
         (\<not> Event_get r \<longrightarrow>
            fst (Event_wait c k r) = False \<and>
            blocked c (snd (Event_wait c k r)) = 1 \<and>
            resumes c (run_ops ops1 (snd (Event_wait c k r))) = resumes c r \<and>
            made_ready c (run_ops ops1 (snd (Event_wait c k r))) = made_ready c r \<and>
            resumes c (Event_set (run_ops ops1 (snd (Event_wait c k r)))) = resumes c r + 1 \<and>
            made_ready c (Event_set (run_ops ops1 (snd (Event_wait c k r))))
              = made_ready c r + 1 \<and>
            blocked c (Event_set (run_ops ops1 (snd (Event_wait c k r)))) = 0 \<and>
            resumes c (run_ops ops2 (Event_set (run_ops ops1 (snd (Event_wait c k r)))))
              = resumes c r + 1 \<and>
            made_ready c (run_ops ops2 (Event_set (run_ops ops1 (snd (Event_wait c k r)))))
              = made_ready c r + 1)"
proof (intro conjI impI)
  assume "Event_get r"
  then show "Event_wait c k r = (True, r)" by (simp add: Event_get_def Event_wait_def)
next
  assume f: "\<not> Event_get r"
  let ?r1 = "snd (Event_wait c k r)"
  let ?r2 = "run_ops ops1 ?r1"
  let ?r3 = "Event_set ?r2"
  from f show "fst (Event_wait c k r) = False" by (simp add: Event_get_def Event_wait_def)
  from f running show b1: "blocked c ?r1 = 1"
    by (simp add: Event_get_def Event_wait_def blocked_def)
  from f have l1: "resume_log ?r1 = resume_log r" and q1: "ready_queue ?r1 = ready_queue r"
    by (simp_all add: Event_get_def Event_wait_def)
  from run_ops_no_set[OF before, of ?r1] b1 l1 q1
  have b2: "blocked c ?r2 = 1" and l2: "resume_log ?r2 = resume_log r"
    and q2: "ready_queue ?r2 = ready_queue r" by simp_all
  from l2 show "resumes c ?r2 = resumes c r" by (simp add: resumes_def)
  from q2 show "made_ready c ?r2 = made_ready c r" by (simp add: made_ready_def)
  from b2 l2 show r3: "resumes c ?r3 = resumes c r + 1"
    by (simp add: resumes_def blocked_def Event_set_def)
  from b2 q2 show q3: "made_ready c ?r3 = made_ready c r + 1"
    by (simp add: made_ready_def blocked_def Event_set_def)
  show b3: "blocked c ?r3 = 0" by (simp add: blocked_def Event_set_def)
  from run_ops_not_blocked[OF after b3] r3 q3
  show "resumes c (run_ops ops2 ?r3) = resumes c r + 1"
    and "made_ready c (run_ops ops2 ?r3) = made_ready c r + 1" by simp_all
qed

text \<open>
  The claim for Context 1 on a fresh Event, between operations of Context 2, and for a
  \<open>wait()\<close> on a set Event.
\<close>

theorem Event_wait_resumed_exactly_once_witness:
  "Event_wait 1 0 (fresh_event\<lparr>flag := True\<rparr>) = (True, fresh_event\<lparr>flag := True\<rparr>) \<and>
   resumes 1 (run_ops [Op_wait 2 0, Op_clear] (snd (Event_wait 1 0 fresh_event))) = 0 \<and>
   resumes 1 (Event_set (run_ops [Op_wait 2 0, Op_clear] (snd (Event_wait 1 0 fresh_event)))) = 1 \<and>
   resumes 1 (run_ops [Op_clear, Op_wait 2 0, Op_set, Op_clear, Op_set]
                (Event_set (run_ops [Op_wait 2 0, Op_clear] (snd (Event_wait 1 0 fresh_event)))))
     = 1 \<and>
   made_ready 1 (run_ops [Op_clear, Op_wait 2 0, Op_set, Op_clear, Op_set]
                (Event_set (run_ops [Op_wait 2 0, Op_clear] (snd (Event_wait 1 0 fresh_event)))))
     = 1"
proof -
  have b: "blocked 1 fresh_event = 0" "blocked 1 (fresh_event\<lparr>flag := True\<rparr>) = 0"
    by (simp_all add: blocked_def fresh_event_def)
  have o1: "list_all (\<lambda>op. \<not> wait_by 1 op \<and> op \<noteq> Op_set) [Op_wait 2 0, Op_clear :: nat event_op]"
    by simp
  have o2: "list_all (\<lambda>op. \<not> wait_by 1 op)
              [Op_clear, Op_wait 2 0, Op_set, Op_clear, Op_set :: nat event_op]"
    by simp
  have g: "Event_get (fresh_event\<lparr>flag := True\<rparr>)" "\<not> Event_get fresh_event"
    "resumes 1 fresh_event = 0" "made_ready 1 fresh_event = 0"
    by (simp_all add: Event_get_def fresh_event_def resumes_def made_ready_def)
  from Event_wait_resumed_exactly_once[OF b(2) o1 o2, of 0, THEN conjunct1, rule_format, OF g(1)]
       Event_wait_resumed_exactly_once[OF b(1) o1 o2, of 0, THEN conjunct2, rule_format, OF g(2)]
       g(3) g(4)
  show ?thesis by simp
qed

subsection \<open>Mutual exclusion\<close>

lemma scoped_depth: "scoped d k \<Longrightarrow> scoped d' k \<Longrightarrow> d = d'"
proof (induction k arbitrary: d d')
  case Nil
  then show ?case by simp
next
  case (Cons i k)
  show ?case
  proof (cases i)
    case Yield
    with Cons show ?thesis by simp
  next
    case Lock
    with Cons.prems have "scoped (Suc d) k" "scoped (Suc d') k" by simp_all
    then have "Suc d = Suc d'" by (rule Cons.IH)
    then show ?thesis by simp
  next
    case Unlock
    with Cons.prems obtain a b where "d = Suc a" "d' = Suc b" "scoped a k" "scoped b k"
      by (cases d; cases d') simp_all
    with Cons.IH[of a b] show ?thesis by simp
  qed
qed

lemma not_holding: "scoped 0 k \<Longrightarrow> \<not> scoped (Suc 0) k"
  by (auto dest: scoped_depth)

lemma holders_Nil [simp]: "holders [] = []"
  by (simp add: holders_def)

lemma holders_append [simp]: "holders (q @ q') = holders q @ holders q'"
  by (simp add: holders_def)

lemma holders_one [simp]:
  "holders [(c, k)] = (if scoped (Suc 0) k then [(c, k)] else [])"
  by (simp add: holders_def)

lemma run_context_excl: "excl_running c k g \<Longrightarrow> excl_inv (run_context c k g)"
proof (induction c k g rule: run_context.induct)
  case (1 c g)
  then show ?case by (auto simp: excl_running_def excl_inv_def)
next
  case (2 c k g)
  then show ?case
    by (auto simp: excl_running_def excl_inv_def queues_scoped_def split: if_splits)
next
  case (3 c k g)
  show ?case
  proof (cases "Event_get g")
    case False
    with 3(2) show ?thesis
      by (auto simp: excl_running_def excl_inv_def queues_scoped_def Event_get_def Event_wait_def
               dest: scoped_depth split: if_splits)
  next
    case True
    with 3(2) have i: "inside g = []" and q: "queues_scoped g"
      by (simp_all add: excl_running_def queues_scoped_def Event_get_def)
    with 3(2) have s: "scoped (Suc 0) k"
      and h: "holders (ready_queue g) = []" "holders (waiting g) = []"
      by (auto simp: excl_running_def split: if_splits)
    from i q s h have "excl_running c k (enter c (Event_clear g))"
      by (simp add: excl_running_def queues_scoped_def Event_clear_def enter_def)
    with 3(1) True show ?thesis by simp
  qed
next
  case (4 c k g)
  from 4(2) have s: "scoped 0 k" and i: "inside g = [c]"
    and h: "holders (ready_queue g) = []" "holders (waiting g) = []" and q: "queues_scoped g"
    by (auto simp: excl_running_def dest: scoped_depth split: if_splits)
  from s have n: "\<not> scoped (Suc 0) k" by (rule not_holding)
  from s n i h q have "excl_running c k (Event_set (leave c g))"
    by (simp add: excl_running_def queues_scoped_def Event_set_def leave_def)
  with 4(1) show ?case by simp
qed

lemma dispatch_excl: "excl_inv g \<Longrightarrow> excl_inv (dispatch g)"
proof (induction g rule: dispatch.induct)
  case (1 g)
  show ?case
  proof (cases "ready_queue g")
    case Nil
    with 1(2) show ?thesis by (simp add: dispatch.simps[of g])
  next
    case (Cons x rest)
    obtain c k where x: "x = (c, k)" by (cases x)
    have "excl_running c k (g\<lparr>ready_queue := rest\<rparr>)"
      using 1(2) Cons x
      by (auto simp: excl_running_def excl_inv_def queues_scoped_def holders_def
               dest: not_holding split: if_splits)
    then have "excl_inv (run_context c k (g\<lparr>ready_queue := rest\<rparr>))"
      by (rule run_context_excl)
    from 1(1)[OF Cons x[symmetric] this] show ?thesis
      using Cons x by (simp add: dispatch.simps[of g])
  qed
qed

lemma start_excl:
  assumes "list_all (\<lambda>x. scoped 0 (snd x)) cs"
  shows "excl_inv (start f cs)"
proof -
  from assms have "holders cs = []"
    by (auto simp: holders_def list_all_iff filter_empty_conv dest: not_holding)
  with assms show ?thesis
    by (auto simp: excl_inv_def queues_scoped_def start_def list_all_iff)
qed

subsection \<open>Progress\<close>

lemma not_both: "unnested True k \<Longrightarrow> \<not> unnested False k"
  by (induction k) (auto elim: unnested.elims)

lemma owners_Nil [simp]: "owners [] = []"
  by (simp add: owners_def)

lemma owners_append [simp]: "owners (q @ q') = owners q @ owners q'"
  by (simp add: owners_def)

lemma owners_one [simp]: "owners [(c, k)] = (if unnested True k then [(c, k)] else [])"
  by (simp add: owners_def)

lemma owners_outside: "list_all (\<lambda>x. unnested False (snd x)) q \<Longrightarrow> owners q = []"
  by (induction q) (auto simp: owners_def dest: not_both)

lemma locks_Nil [simp]: "locks [] = {#}"
  by (simp add: locks_def)

lemma locks_Cons [simp]:
  "locks ((c, k) # q) = replicate_mset (count_list k Lock) c + locks q"
  by (simp add: locks_def)

lemma locks_append [simp]: "locks (q @ q') = locks q + locks q'"
  by (induction q) (auto simp: locks_def)

lemma run_context_inv: "running_inv A c k g \<Longrightarrow> loop_inv A (run_context c k g)"
proof (induction c k g rule: run_context.induct)
  case (1 c g)
  then show ?case by (auto simp: running_inv_def loop_inv_def)
next
  case (2 c k g)
  show ?case
  proof (cases "unnested True k")
    case True
    with 2 show ?thesis
      by (auto simp: running_inv_def loop_inv_def queues_ok_def)
  next
    case False
    with 2 show ?thesis
      by (auto simp: running_inv_def loop_inv_def queues_ok_def)
  qed
next
  case (3 c k g)
  from 3(2) have sec: "unnested True k"
    by (auto simp: running_inv_def split: if_splits)
  show ?case
  proof (cases "Event_get g")
    case False
    with 3(2) sec show ?thesis
      by (auto simp: running_inv_def loop_inv_def queues_ok_def Event_get_def Event_wait_def)
  next
    case True
    with 3(2) sec have "running_inv A c k (enter c (Event_clear g))"
      by (auto simp: running_inv_def queues_ok_def Event_get_def Event_clear_def enter_def)
    with 3(1) True show ?thesis by simp
  qed
next
  case (4 c k g)
  from 4(2) have k: "unnested False k" and i: "inside g = [c]"
    by (auto simp: running_inv_def split: if_splits)
  from k have n: "\<not> unnested True k" by (auto dest: not_both)
  from 4(2) have h: "owners (waiting g) = []"
    by (auto simp: running_inv_def queues_ok_def intro: owners_outside)
  from 4(2) have w: "list_all (\<lambda>x. unnested False (snd x) \<or> unnested True (snd x)) (waiting g)"
    by (auto simp: running_inv_def queues_ok_def list_all_iff)
  from 4(2) k n i h w have "running_inv A c k (Event_set (leave c g))"
    by (auto simp: running_inv_def queues_ok_def Event_set_def leave_def)
  with 4(1) show ?case by simp
qed

lemma dispatch_inv: "loop_inv A g \<Longrightarrow> loop_inv A (dispatch g) \<and> ready_queue (dispatch g) = []"
proof (induction g rule: dispatch.induct)
  case (1 g)
  show ?case
  proof (cases "ready_queue g")
    case Nil
    with 1(2) show ?thesis by (simp add: dispatch.simps[of g])
  next
    case (Cons x rest)
    obtain c k where x: "x = (c, k)" by (cases x)
    have "running_inv A c k (g\<lparr>ready_queue := rest\<rparr>)"
      using 1(2) Cons x
      by (auto simp: running_inv_def loop_inv_def queues_ok_def owners_def
               dest: not_both split: if_splits)
    then have "loop_inv A (run_context c k (g\<lparr>ready_queue := rest\<rparr>))"
      by (rule run_context_inv)
    from 1(1)[OF Cons x[symmetric] this] show ?thesis
      using Cons x by (simp add: dispatch.simps[of g])
  qed
qed

lemma start_inv:
  assumes "list_all (\<lambda>x. unnested False (snd x)) cs"
  shows "loop_inv (locks cs) (start True cs)"
proof -
  from assms have "owners cs = []" by (rule owners_outside)
  with assms show ?thesis
    by (auto simp: loop_inv_def queues_ok_def start_def list_all_iff)
qed

subsection \<open>Order of entry\<close>

lemma in_section_cases:
  "in_section k \<Longrightarrow> (\<exists>k'. k = Yield # k' \<and> in_section k') \<or> k = [Unlock]"
  by (induction k rule: in_section.induct) auto

lemma at_lock_cases: "at_lock k \<Longrightarrow> \<exists>k'. k = Lock # k' \<and> in_section k'"
  by (induction k rule: at_lock.induct) auto

lemma all_wait:
  "\<not> flag g \<Longrightarrow> list_all (\<lambda>x. at_lock (snd x)) q \<Longrightarrow> ready_queue g = q @ tail \<Longrightarrow>
     dispatch g = dispatch (g\<lparr>ready_queue := tail, waiting := waiting g @ q,
                              wait_log := wait_log g @ map fst q\<rparr>)"
proof (induction q arbitrary: g)
  case Nil
  then have "tail = ready_queue g" by simp
  then show ?case by simp
next
  case (Cons x q)
  obtain c k where x: "x = (c, k)" by (cases x)
  from Cons.prems(2) x obtain k' where k: "k = Lock # k'"
    by (auto dest: at_lock_cases)
  let ?g1 = "g\<lparr>ready_queue := q @ tail, waiting := waiting g @ [(c, k)],
                wait_log := wait_log g @ [c]\<rparr>"
  have "dispatch g = dispatch ?g1"
    using Cons.prems(1,3) x k
    by (simp add: dispatch.simps[of g] Event_get_def Event_wait_def)
  also have "\<dots> = dispatch (?g1\<lparr>ready_queue := tail, waiting := waiting ?g1 @ q,
                              wait_log := wait_log ?g1 @ map fst q\<rparr>)"
    using Cons.prems by (intro Cons.IH) simp_all
  finally show ?case using x by simp
qed

lemma holder_finishes:
  "in_section k \<Longrightarrow> ready_queue g = [(c, k)] \<Longrightarrow> inside g = [c] \<Longrightarrow>
     dispatch g = dispatch (g\<lparr>flag := True, ready_queue := waiting g,
                              resume_log := resume_log g @ map fst (waiting g),
                              waiting := [], inside := []\<rparr>)"
proof (induction k arbitrary: g rule: in_section.induct)
  case 1
  have "run_context c [Unlock] (g\<lparr>ready_queue := []\<rparr>)
          = g\<lparr>flag := True, ready_queue := waiting g,
              resume_log := resume_log g @ map fst (waiting g),
              waiting := [], inside := []\<rparr>"
    using 1 by (intro guarded.equality) (simp_all add: Event_set_def leave_def)
  with 1 show ?case
    by (simp add: dispatch.simps[of g])
next
  case (2 k)
  let ?g1 = "g\<lparr>ready_queue := [(c, k)]\<rparr>"
  have "dispatch g = dispatch ?g1"
    using 2(3) by (simp add: dispatch.simps[of g])
  also have "\<dots> = dispatch (?g1\<lparr>flag := True, ready_queue := waiting ?g1,
                              resume_log := resume_log ?g1 @ map fst (waiting ?g1),
                              waiting := [], inside := []\<rparr>)"
    using 2 by (intro 2(1)) simp_all
  finally show ?case by simp
qed simp_all

lemma fifo_entry:
  "ready_queue g = q \<Longrightarrow> flag g \<Longrightarrow> waiting g = [] \<Longrightarrow> inside g = [] \<Longrightarrow>
   list_all (\<lambda>x. at_lock (snd x)) q \<Longrightarrow>
     entered (dispatch g) = entered g @ map fst q"
proof (induction q arbitrary: g)
  case Nil
  then show ?case by (simp add: dispatch.simps[of g])
next
  case (Cons x rest)
  obtain c k where x: "x = (c, k)" by (cases x)
  from Cons.prems(5) x obtain k' where k: "k = Lock # k'" and sec: "in_section k'"
    by (auto dest: at_lock_cases)
  from Cons.prems(5) have rest: "list_all (\<lambda>x. at_lock (snd x)) rest" by simp
  let ?g1 = "enter c (Event_clear (g\<lparr>ready_queue := rest\<rparr>))"
  have d: "dispatch g = dispatch (run_context c k' ?g1)"
    using Cons.prems(1,2) x k by (simp add: dispatch.simps[of g] Event_get_def)
  from in_section_cases[OF sec] show ?case
  proof
    assume "k' = [Unlock]"
    then have r: "run_context c k' ?g1 = Event_set (leave c ?g1)" by simp
    have ih: "entered (dispatch (Event_set (leave c ?g1)))
            = entered (Event_set (leave c ?g1)) @ map fst rest"
      using Cons.prems(3,4) rest
      by (intro Cons.IH) (simp_all add: Event_set_def leave_def enter_def Event_clear_def)
    have e: "entered (Event_set (leave c ?g1)) = entered g @ [c]"
      by (simp add: Event_set_def leave_def enter_def Event_clear_def)
    show ?thesis
      unfolding d r ih e using x by simp
  next
    assume "\<exists>k''. k' = Yield # k'' \<and> in_section k''"
    then obtain k'' where k': "k' = Yield # k''" and sec': "in_section k''" by blast
    let ?g2 = "?g1\<lparr>ready_queue := rest @ [(c, k'')]\<rparr>"
    have r: "run_context c k' ?g1 = ?g2"
      by (simp add: k' enter_def Event_clear_def)
    let ?g3 = "?g2\<lparr>ready_queue := [(c, k'')], waiting := waiting ?g2 @ rest,
                   wait_log := wait_log ?g2 @ map fst rest\<rparr>"
    have w: "dispatch ?g2 = dispatch ?g3"
      using rest by (intro all_wait) (simp_all add: enter_def Event_clear_def)
    let ?g4 = "?g3\<lparr>flag := True, ready_queue := waiting ?g3,
                   resume_log := resume_log ?g3 @ map fst (waiting ?g3),
                   waiting := [], inside := []\<rparr>"
    have h: "dispatch ?g3 = dispatch ?g4"
      using sec' Cons.prems(4) by (intro holder_finishes) (simp_all add: enter_def Event_clear_def)
    have ih: "entered (dispatch ?g4) = entered ?g4 @ map fst rest"
      using Cons.prems(3) rest by (intro Cons.IH) (simp_all add: enter_def Event_clear_def)
    have e: "entered ?g4 = entered g @ [c]"
      by (simp add: enter_def Event_clear_def)
    show ?thesis
      unfolding d r w h ih e using x by simp
  qed
qed

subsection \<open>EventLock under the Dispatcher\<close>

lemma unnested_scoped: "unnested h k \<Longrightarrow> scoped (if h then Suc 0 else 0) k"
proof (induction k arbitrary: h)
  case Nil
  then show ?case by simp
next
  case (Cons i k)
  show ?case
  proof (cases i)
    case Yield
    with Cons.prems Cons.IH[of h] show ?thesis by simp
  next
    case Lock
    with Cons.prems Cons.IH[of True] show ?thesis by simp
  next
    case Unlock
    with Cons.prems Cons.IH[of False] show ?thesis by simp
  qed
qed

lemma in_section_unnested: "in_section k \<Longrightarrow> unnested True k"
  by (induction k rule: in_section.induct) auto

lemma at_lock_unnested: "at_lock k \<Longrightarrow> unnested False k"
  by (auto dest!: at_lock_cases in_section_unnested)

text \<open>
  Context 1 has reached the lock while Context 0, which has \<open>n\<close> more guarded blocks to
  run, is suspended inside the guarded section. Context 0 enters \<open>n\<close> more times before
  Context 1 does, and Context 1 begins to wait \<open>n + 1\<close> times.
\<close>

lemma relock_overtakes:
  "ready_queue g = [(1, [Lock, Unlock]), (0, Unlock # relock n)] \<Longrightarrow> \<not> flag g \<Longrightarrow>
   waiting g = [] \<Longrightarrow>
     entered (dispatch g) = entered g @ replicate n 0 @ [1] \<and>
     wait_log (dispatch g) = wait_log g @ replicate (Suc n) 1"
proof (induction n arbitrary: g)
  case 0
  then show ?case
    by (simp add: dispatch.simps relock_def Event_get_def Event_wait_def Event_set_def
          Event_clear_def enter_def leave_def)
next
  case (Suc n)
  let ?g1 = "g\<lparr>ready_queue := [(0, Unlock # relock (Suc n))], waiting := [(1, [Lock, Unlock])],
               wait_log := wait_log g @ [1]\<rparr>"
  let ?g2 = "Event_set (leave 0 (?g1\<lparr>ready_queue := []\<rparr>))"
  let ?g3 = "(enter 0 (Event_clear ?g2))
               \<lparr>ready_queue := ready_queue (enter 0 (Event_clear ?g2)) @ [(0, Unlock # relock n)]\<rparr>"
  have r: "relock (Suc n) = Lock # Yield # Unlock # relock n" by (simp add: relock_def)
  have "dispatch g = dispatch ?g1"
    using Suc.prems by (simp add: dispatch.simps[of g] Event_get_def Event_wait_def)
  also have "\<dots> = dispatch (run_context 0 (relock (Suc n)) ?g2)"
    by (subst dispatch.simps) simp
  also have "run_context 0 (relock (Suc n)) ?g2 = ?g3"
    by (simp add: r Event_get_def Event_set_def)
  finally have d: "dispatch g = dispatch ?g3" .
  have "entered (dispatch ?g3) = entered ?g3 @ replicate n 0 @ [1] \<and>
        wait_log (dispatch ?g3) = wait_log ?g3 @ replicate (Suc n) 1"
    by (rule Suc.IH) (simp_all add: enter_def Event_clear_def Event_set_def leave_def)
  moreover have "entered ?g3 = entered g @ [0]" "wait_log ?g3 = wait_log g @ [1]"
    by (simp_all add: enter_def Event_clear_def Event_set_def leave_def)
  ultimately show ?case unfolding d by simp
qed

text \<open>
  Claim C3, as amended. Contexts are spawned on one Dispatcher and use one Event through
  EventLock only.

  \<^item> Whatever the value of the Event at the start, no Context ever enters the guarded
    section while another is inside.
  \<^item> When the Event is set at the start and no Context constructs an EventLock while it
    holds one, the Dispatcher loop ends with both queues empty and nobody inside: no
    Context is left waiting, and every Context has entered the guarded section as often
    as its program constructs an EventLock.
  \<^item> When moreover the program of every Context is one guarded block that it reaches
    without suspending, the Contexts enter in the order in which they were spawned.
  \<^item> The order of entry is not FIFO in general, and nothing bounds how often a waiting
    Context is overtaken: for every \<open>n\<close>, a Context that runs \<open>n + 1\<close> guarded blocks
    enters \<open>n\<close> times after Context 1 began to wait and before Context 1 enters.
\<close>

theorem EventLock_mutual_exclusion_and_entry:
  "(list_all (\<lambda>x. scoped 0 (snd x)) cs \<longrightarrow>
      \<not> overlap (dispatch (start f cs)) \<and> length (inside (dispatch (start f cs))) \<le> 1) \<and>
   (list_all (\<lambda>x. unnested False (snd x)) cs \<longrightarrow>
      \<not> overlap (dispatch (start True cs)) \<and>
      ready_queue (dispatch (start True cs)) = [] \<and>
      waiting (dispatch (start True cs)) = [] \<and>
      inside (dispatch (start True cs)) = [] \<and>
      mset (entered (dispatch (start True cs))) = locks cs) \<and>
   (list_all (\<lambda>x. at_lock (snd x)) cs \<longrightarrow>
      entered (dispatch (start True cs)) = map fst cs) \<and>
   (\<forall>n. entered (dispatch (start True [(0, relock (Suc n)), (1, [Lock, Unlock])]))
          = replicate (Suc n) 0 @ [1] \<and>
        wait_log (dispatch (start True [(0, relock (Suc n)), (1, [Lock, Unlock])]))
          = replicate (Suc n) 1)"
proof (intro conjI impI allI)
  assume a: "list_all (\<lambda>x. scoped 0 (snd x)) cs"
  from dispatch_excl[OF start_excl[OF a, of f]]
  show "\<not> overlap (dispatch (start f cs))" and "length (inside (dispatch (start f cs))) \<le> 1"
    by (auto simp: excl_inv_def queues_scoped_def)
next
  let ?g = "dispatch (start True cs)"
  assume a: "list_all (\<lambda>x. unnested False (snd x)) cs"
  then have "list_all (\<lambda>x. scoped 0 (snd x)) cs"
    by (auto simp: list_all_iff dest: unnested_scoped[of False, simplified])
  from dispatch_excl[OF start_excl[OF this, of True]]
  show "\<not> overlap ?g" by (simp add: excl_inv_def queues_scoped_def)
  from dispatch_inv[OF start_inv[OF a]]
  have i: "loop_inv (locks cs) ?g" and r: "ready_queue ?g = []" by simp_all
  from r show "ready_queue ?g = []" .
  from i r show ins: "inside ?g = []" by (simp add: loop_inv_def)
  with i have "flag ?g" by (simp add: loop_inv_def)
  with i show w: "waiting ?g = []" by (auto simp: loop_inv_def queues_ok_def)
  from i r w show "mset (entered ?g) = locks cs" by (simp add: loop_inv_def)
next
  assume "list_all (\<lambda>x. at_lock (snd x)) cs"
  then have "entered (dispatch (start True cs)) = entered (start True cs) @ map fst cs"
    by (intro fifo_entry) (simp_all add: start_def)
  then show "entered (dispatch (start True cs)) = map fst cs" by (simp add: start_def)
next
  fix n
  let ?g = "start True [(0, relock (Suc n)), (1, [Lock, Unlock])]"
  let ?g1 = "(enter 0 (Event_clear (?g\<lparr>ready_queue := [(1, [Lock, Unlock])]\<rparr>)))
               \<lparr>ready_queue := [(1, [Lock, Unlock]), (0, Unlock # relock n)]\<rparr>"
  have r: "relock (Suc n) = Lock # Yield # Unlock # relock n" by (simp add: relock_def)
  have d: "dispatch ?g = dispatch ?g1"
    by (subst dispatch.simps) (simp add: r start_def Event_get_def Event_clear_def enter_def)
  have "entered (dispatch ?g1) = entered ?g1 @ replicate n 0 @ [1] \<and>
        wait_log (dispatch ?g1) = wait_log ?g1 @ replicate (Suc n) 1"
    by (rule relock_overtakes) (simp_all add: start_def enter_def Event_clear_def)
  then show "entered (dispatch ?g) = replicate (Suc n) 0 @ [1]"
    and "wait_log (dispatch ?g) = replicate (Suc n) 1"
    unfolding d by (simp_all add: start_def enter_def Event_clear_def)
qed

text \<open>
  Claim C3 as stated fails. First run: four Contexts on a set Event; Contexts 2 and 3
  suspend once before they reach the lock. Context 1 is the first to wait and Context 3
  waits after it, yet the order of entry is 0, 2, 3, 1: Context 2 finds the Event set and
  enters without waiting, and the woken Context 1 queues again behind Context 3. Second
  run: Context 0 takes the lock three times; Context 1 waits from the first time on, is
  woken by every release and finds the Event cleared again, so Context 0 enters twice
  more before it. Third run: an Event as it is constructed, false; the Context waits and
  is never resumed. Fourth run: Context 0 constructs a second EventLock while it holds
  the first; it waits for a release that only itself could make, and Context 1 never
  enters.
\<close>

theorem EventLock_fifo_counterexample:
  "entered (dispatch (start True
      [(0, [Lock, Yield, Unlock]), (1, [Lock, Unlock]),
       (2, [Yield, Lock, Yield, Unlock]), (3, [Yield, Lock, Unlock])])) = [0, 2, 3, 1] \<and>
   wait_log (dispatch (start True
      [(0, [Lock, Yield, Unlock]), (1, [Lock, Unlock]),
       (2, [Yield, Lock, Yield, Unlock]), (3, [Yield, Lock, Unlock])])) = [1, 3, 1] \<and>
   entered (dispatch (start True
      [(0, [Lock, Yield, Unlock, Lock, Yield, Unlock, Lock, Yield, Unlock]),
       (1, [Lock, Unlock])])) = [0, 0, 0, 1] \<and>
   wait_log (dispatch (start True
      [(0, [Lock, Yield, Unlock, Lock, Yield, Unlock, Lock, Yield, Unlock]),
       (1, [Lock, Unlock])])) = [1, 1, 1] \<and>
   entered (dispatch (start False [(0, [Lock, Unlock])])) = [] \<and>
   waiting (dispatch (start False [(0, [Lock, Unlock])])) = [(0, [Lock, Unlock])] \<and>
   entered (dispatch (start True
      [(0, [Lock, Lock, Unlock, Unlock]), (1, [Lock, Unlock])])) = [0] \<and>
   waiting (dispatch (start True [(0, [Lock, Lock, Unlock, Unlock]), (1, [Lock, Unlock])]))
     = [(0, [Lock, Unlock, Unlock]), (1, [Lock, Unlock])]"
  by (simp add: dispatch.simps start_def Event_get_def Event_wait_def
        Event_set_def Event_clear_def enter_def leave_def)

text \<open>
  The amended claim on three runs. Contexts 5, 6 and 7 reach the lock at once, the first
  and the third with a suspension point inside the guarded section. Context 0 nests two
  guards and Context 1 suspends before it reaches the lock. Context 0 runs two guarded
  blocks and Context 1 one, after a suspension point.
\<close>

theorem EventLock_mutual_exclusion_and_entry_witness:
  "\<not> overlap (dispatch (start True
       [(5, [Lock, Yield, Unlock]), (6, [Lock, Unlock]), (7, [Lock, Yield, Unlock])])) \<and>
   entered (dispatch (start True
       [(5, [Lock, Yield, Unlock]), (6, [Lock, Unlock]), (7, [Lock, Yield, Unlock])]))
     = [5, 6, 7] \<and>
   \<not> overlap (dispatch (start True
       [(0, [Lock, Yield, Lock, Unlock, Unlock]), (1, [Yield, Lock, Unlock])])) \<and>
   waiting (dispatch (start True
       [(0, [Lock, Yield, Unlock, Lock, Unlock]), (1, [Yield, Lock, Unlock])])) = [] \<and>
   mset (entered (dispatch (start True
       [(0, [Lock, Yield, Unlock, Lock, Unlock]), (1, [Yield, Lock, Unlock])])))
     = {#0, 0, 1#}"
proof -
  note t = EventLock_mutual_exclusion_and_entry
  have a: "list_all (\<lambda>x. scoped 0 (snd x))
             [(5 :: nat, [Lock, Yield, Unlock]), (6, [Lock, Unlock]), (7, [Lock, Yield, Unlock])]"
    and b: "list_all (\<lambda>x. at_lock (snd x))
             [(5 :: nat, [Lock, Yield, Unlock]), (6, [Lock, Unlock]), (7, [Lock, Yield, Unlock])]"
    and c: "list_all (\<lambda>x. scoped 0 (snd x))
             [(0 :: nat, [Lock, Yield, Lock, Unlock, Unlock]), (1, [Yield, Lock, Unlock])]"
    and d: "list_all (\<lambda>x. unnested False (snd x))
             [(0 :: nat, [Lock, Yield, Unlock, Lock, Unlock]), (1, [Yield, Lock, Unlock])]"
    by simp_all
  from t[THEN conjunct1, rule_format, OF a, of True]
       t[THEN conjunct2, THEN conjunct2, THEN conjunct1, rule_format, OF b]
       t[THEN conjunct1, rule_format, OF c, of True]
       t[THEN conjunct2, THEN conjunct1, rule_format, OF d]
  show ?thesis by (simp add: add_mset_commute)
qed

section \<open>Properties of TcpConnector and TcpConnection\<close>

text \<open>
  Claim C6. After a move the moved-from TcpConnector is unbound and holds no resource,
  and the new object holds what the source held. The destructor of the moved-from object
  changes nothing. Destroying both objects, in either order, releases the resource that
  the source held exactly once and leaves it not live. The same holds of TcpConnection.
  The model has no operation that copies either object.
\<close>

theorem move_then_destroy_releases_once:
  "(case TcpConnector_move t of (dst, src) \<Rightarrow>
      dispatcher src = None \<and> context_ptr src = None \<and>
      dispatcher dst = dispatcher t \<and> context_ptr dst = context_ptr t \<and>
      TcpConnector_dtor src os = os \<and>
      TcpConnector_dtor dst (TcpConnector_dtor src os)
        = TcpConnector_dtor src (TcpConnector_dtor dst os) \<and>
      (\<forall>h. context_ptr t = Some h \<longrightarrow>
         count_list (released (TcpConnector_dtor dst (TcpConnector_dtor src os))) h
           = count_list (released os) h + 1 \<and>
         h \<notin> set (live (TcpConnector_dtor dst (TcpConnector_dtor src os))))) \<and>
   (case TcpConnection_move u of (dst, src) \<Rightarrow>
      connection_dispatcher src = None \<and> connection src = None \<and>
      connection_dispatcher dst = connection_dispatcher u \<and> connection dst = connection u \<and>
      TcpConnection_dtor src os = os \<and>
      TcpConnection_dtor dst (TcpConnection_dtor src os)
        = TcpConnection_dtor src (TcpConnection_dtor dst os) \<and>
      (\<forall>h. connection u = Some h \<longrightarrow>
         count_list (released (TcpConnection_dtor dst (TcpConnection_dtor src os))) h
           = count_list (released os) h + 1 \<and>
         h \<notin> set (live (TcpConnection_dtor dst (TcpConnection_dtor src os)))))"
  by (auto simp: TcpConnector_move_def TcpConnector_dtor_def TcpConnection_move_def
        TcpConnection_dtor_def release_def split: option.splits)

text \<open>
  The claim for a connector bound to Dispatcher 1 that holds the handle 42, and a
  connection that holds the handle 43, both live.
\<close>

theorem move_then_destroy_releases_once_witness:
  "released (TcpConnector_dtor (fst (TcpConnector_move \<lparr>dispatcher = Some 1, context_ptr = Some 42\<rparr>))
      (TcpConnector_dtor (snd (TcpConnector_move \<lparr>dispatcher = Some 1, context_ptr = Some 42\<rparr>))
         \<lparr>live = [42, 43], released = []\<rparr>)) = [42] \<and>
   released (TcpConnection_dtor
      (fst (TcpConnection_move \<lparr>connection_dispatcher = Some 1, connection = Some 43\<rparr>))
      (TcpConnection_dtor
         (snd (TcpConnection_move \<lparr>connection_dispatcher = Some 1, connection = Some 43\<rparr>))
         \<lparr>live = [42, 43], released = []\<rparr>)) = [43]"
proof -
  let ?t = "\<lparr>dispatcher = Some 1, context_ptr = Some 42\<rparr>"
  let ?u = "\<lparr>connection_dispatcher = Some 1, connection = Some 43\<rparr>"
  let ?os = "\<lparr>live = [42, 43], released = []\<rparr>"
  obtain dst src where m: "TcpConnector_move ?t = (dst, src)" by (cases "TcpConnector_move ?t")
  obtain dst' src' where m': "TcpConnection_move ?u = (dst', src')"
    by (cases "TcpConnection_move ?u")
  note t = move_then_destroy_releases_once[of ?t ?os ?u]
  from t[THEN conjunct1] m
  have a: "TcpConnector_dtor src ?os = ?os" "context_ptr dst = Some 42" by simp_all
  from t[THEN conjunct2] m'
  have b: "TcpConnection_dtor src' ?os = ?os" "connection dst' = Some 43" by simp_all
  from a b m m' show ?thesis
    by (simp add: TcpConnector_dtor_def TcpConnection_dtor_def release_def)
qed

end
